theory Spec2Isabelle
  imports Complex_Main "HOL-Library.AList"
begin

section \<open>NodeSet validator summary: the model\<close>

text \<open>
  A shallow embedding of \<^verbatim>\<open>nodeset_validator_summary.py\<close>. The script pages through
  the transactions sent to the Multicall3 contract, keeps the \<^verbatim>\<open>aggregate\<close> calls whose
  payload mentions the NodeSet vault, counts the successful ones per sender and prints a
  histogram of these counts.

  Conventions of the model:
  \<^item> Python strings are \<open>string\<close>; payloads and addresses are ASCII, so \<^verbatim>\<open>str.lower\<close>
    is the ASCII lower-casing and every other character is left alone.
  \<^item> Python integers are \<open>int\<close>; the printed ratio is the exact quotient as a \<open>real\<close>
    (Python rounds it to the nearest double).
  \<^item> An exception that leaves a function is a value of \<open>py_error\<close>.
  \<^item> \<^verbatim>\<open>web3.to_checksum_address\<close> belongs to a library; it is the parameter \<open>cs\<close> of the
    functions that call it. It returns the checksummed address, or raises (\<^verbatim>\<open>ValueError\<close>
    for a string that is no address), which is the result \<open>Inl\<close>.
\<close>

subsection \<open>Constants\<close>

definition MULTICALL_ADDRESS :: string where
  "MULTICALL_ADDRESS = ''0xcA11bde05977b3631167028862bE2a173976CA11''"

definition NODESET_VAULT_ADDRESS :: string where
  "NODESET_VAULT_ADDRESS = ''0xB266274F55e784689e97b7E363B0666d92e6305B''"

definition AGGREGATE_SIGNATURE :: string where
  "AGGREGATE_SIGNATURE = ''0x252dba42''"

definition PAGE_OFFSET :: nat where
  "PAGE_OFFSET = 1000"

definition MAX_RETRIES :: nat where
  "MAX_RETRIES = 3"

definition RETRY_DELAY :: nat where
  "RETRY_DELAY = 2"

text \<open>The default of \<^verbatim>\<open>sys.get_int_max_str_digits()\<close>, which bounds what \<^verbatim>\<open>int\<close> reads.\<close>

definition MAX_STR_DIGITS :: nat where
  "MAX_STR_DIGITS = 4300"

definition NO_TRANSACTIONS_MESSAGE :: string where
  "NO_TRANSACTIONS_MESSAGE = ''No NodeSet-related Aggregate transactions found.''"

subsection \<open>Exceptions\<close>

datatype py_error =
    ConnectionError
  | AttributeError
  | TypeError
  | ValueError
  | ZeroDivisionError

subsection \<open>Strings: \<^verbatim>\<open>lower\<close>, \<^verbatim>\<open>in\<close>, \<^verbatim>\<open>int\<close>\<close>

definition lower_char :: "char \<Rightarrow> char" where
  "lower_char c =
     (let n = (of_char c :: nat)
      in if 65 \<le> n \<and> n \<le> 90 then char_of (n + 32) else c)"

definition lower :: "string \<Rightarrow> string" where
  "lower s = map lower_char s"

text \<open>\<^verbatim>\<open>s.startswith(p)\<close>, used by the substring search below.\<close>

fun starts_with :: "string \<Rightarrow> string \<Rightarrow> bool" where
  "starts_with s [] = True"
| "starts_with [] (p # ps) = False"
| "starts_with (c # cs) (p # ps) = (c = p \<and> starts_with cs ps)"

text \<open>\<^verbatim>\<open>needle in hay\<close> on strings: a search from every position of \<open>hay\<close>.\<close>

fun py_in :: "string \<Rightarrow> string \<Rightarrow> bool" where
  "py_in needle [] = (needle = [])"
| "py_in needle (h # hs) = (starts_with (h # hs) needle \<or> py_in needle hs)"

text \<open>
  \<^verbatim>\<open>int(s)\<close> on a string: surrounding white space (the space and the characters 9 to
  13) is stripped, one sign is allowed, then decimal digits follow, where single
  underscores may separate digits. Anything else raises \<^verbatim>\<open>ValueError\<close>, and so does a
  string of more than 4300 digits.
\<close>

definition is_space :: "char \<Rightarrow> bool" where
  "is_space c = (let n = (of_char c :: nat) in (9 \<le> n \<and> n \<le> 13) \<or> n = 32)"

definition is_digit :: "char \<Rightarrow> bool" where
  "is_digit c = (let n = (of_char c :: nat) in 48 \<le> n \<and> n \<le> 57)"

definition digit_value :: "char \<Rightarrow> int" where
  "digit_value c = int (of_char c) - 48"

definition strip :: "string \<Rightarrow> string" where
  "strip s = rev (dropWhile is_space (rev (dropWhile is_space s)))"

fun parse_digits :: "int \<Rightarrow> string \<Rightarrow> int option" where
  "parse_digits acc [] = Some acc"
| "parse_digits acc [c] = (if is_digit c then Some (10 * acc + digit_value c) else None)"
| "parse_digits acc (c # d # ds) =
     (if is_digit c then parse_digits (10 * acc + digit_value c) (d # ds)
      else if c = CHR ''_'' \<and> is_digit d then parse_digits (10 * acc + digit_value d) ds
      else None)"

definition parse_unsigned :: "string \<Rightarrow> int option" where
  "parse_unsigned s =
     (case s of
        [] \<Rightarrow> None
      | c # cs \<Rightarrow> if is_digit c then parse_digits (digit_value c) cs else None)"

definition py_int :: "string \<Rightarrow> py_error + int" where
  "py_int s =
     (let t = strip s;
          r = (case t of
                 [] \<Rightarrow> None
               | c # cs \<Rightarrow>
                   if c = CHR ''-'' then map_option uminus (parse_unsigned cs)
                   else if c = CHR ''+'' then parse_unsigned cs
                   else parse_unsigned t)
      in case r of
           None \<Rightarrow> Inl ValueError
         | Some n \<Rightarrow>
             if length (filter is_digit t) > MAX_STR_DIGITS then Inl ValueError else Inr n)"

subsection \<open>Transaction records and the relevance filter\<close>

text \<open>
  A transaction is the dictionary the indexing API returns. The script reads
  \<^verbatim>\<open>input\<close> and \<^verbatim>\<open>isError\<close> with \<^verbatim>\<open>tx.get\<close> and a default, so these keys may be
  absent (\<open>None\<close>); it indexes \<^verbatim>\<open>from\<close> and \<^verbatim>\<open>hash\<close> directly, so a record has them.
\<close>

record tx =
  tx_from :: string
  tx_input :: "string option"
  tx_hash :: string
  tx_isError :: "string option"

definition get_input :: "tx \<Rightarrow> string" where
  "get_input t = (case tx_input t of None \<Rightarrow> [] | Some s \<Rightarrow> s)"

definition get_isError :: "tx \<Rightarrow> string" where
  "get_isError t = (case tx_isError t of None \<Rightarrow> ''0'' | Some s \<Rightarrow> s)"

definition is_nodeset_transaction :: "tx \<Rightarrow> string \<Rightarrow> bool" where
  "is_nodeset_transaction t vault_address =
     (let input_data = lower (get_input t)
      in if py_in (drop 2 (lower vault_address)) input_data then True else False)"

text \<open>The test of line 134: the payload starts with the selector of \<^verbatim>\<open>aggregate\<close>.\<close>

definition is_aggregate_call :: "tx \<Rightarrow> bool" where
  "is_aggregate_call t =
     (let input_data = get_input t
      in input_data \<noteq> [] \<and> length input_data \<ge> 10
         \<and> lower (take 10 input_data) = lower AGGREGATE_SIGNATURE)"

subsection \<open>The aggregation pass\<close>

text \<open>
  \<^verbatim>\<open>address_stats\<close> is a dictionary from the checksummed sender to
  \<^verbatim>\<open>{'successful': n}\<close>; an association list keeps Python's insertion order.
\<close>

record operator_stats =
  successful :: int

type_synonym address_stats = "(string \<times> operator_stats) list"

text \<open>
  The body of the loop over the transactions (lines 133 to 142). Line 135 normalises the
  sender of every aggregate call, before the relevance test of line 136, so an exception
  of \<^verbatim>\<open>to_checksum_address\<close> ends the pass also at a record that is not relevant. The
  log record of line 138 reads \<^verbatim>\<open>tx['hash']\<close>, which every record has, and has no part
  in the result.
\<close>

definition process_tx ::
  "(string \<Rightarrow> py_error + string) \<Rightarrow> string \<Rightarrow> tx \<Rightarrow> address_stats
     \<Rightarrow> py_error + address_stats" where
  "process_tx cs vault_address t address_stats =
     (if is_aggregate_call t then
        (case cs (tx_from t) of
           Inl e \<Rightarrow> Inl e
         | Inr from_address \<Rightarrow>
             if \<not> is_nodeset_transaction t vault_address then Inr address_stats
             else
               (let stats1 =
                      (if map_of address_stats from_address = None
                       then AList.update from_address \<lparr>successful = 0\<rparr> address_stats
                       else address_stats)
                in case py_int (get_isError t) of
                     Inl e \<Rightarrow> Inl e
                   | Inr n \<Rightarrow>
                       if n = 0
                       then Inr (AList.map_entry from_address
                                   (\<lambda>s. s\<lparr>successful := successful s + 1\<rparr>) stats1)
                       else Inr stats1))
      else Inr address_stats)"

fun aggregate ::
  "(string \<Rightarrow> py_error + string) \<Rightarrow> string \<Rightarrow> tx list \<Rightarrow> address_stats
     \<Rightarrow> py_error + address_stats" where
  "aggregate cs vault_address [] address_stats = Inr address_stats"
| "aggregate cs vault_address (t # ts) address_stats =
     (case process_tx cs vault_address t address_stats of
        Inl e \<Rightarrow> Inl e
      | Inr stats1 \<Rightarrow> aggregate cs vault_address ts stats1)"

subsection \<open>The report\<close>

text \<open>What the script prints, one value per \<^verbatim>\<open>print\<close>.\<close>

datatype printed =
    Message string
  | Operators_line int nat
  | Total_line int
  | Max_line int
  | Ratio_line real

text \<open>\<^verbatim>\<open>Counter(...)\<close> over the per-operator counts, read at a key.\<close>

definition validator_counts :: "address_stats \<Rightarrow> int \<Rightarrow> nat" where
  "validator_counts address_stats c = count_list (map (successful \<circ> snd) address_stats) c"

definition sorted_counts :: "address_stats \<Rightarrow> int list" where
  "sorted_counts address_stats = sort (remdups (map (successful \<circ> snd) address_stats))"

definition total_validators :: "address_stats \<Rightarrow> int" where
  "total_validators address_stats =
     foldl (\<lambda>total validator_count.
              total + int (validator_counts address_stats validator_count) * validator_count)
       0 (sorted_counts address_stats)"

text \<open>
  Lines 144 to 160. The result is what was printed and the exception that ended the
  function, if any: the division of line 160 raises when the total is zero, after the
  lines before it have been printed.
\<close>

definition report :: "address_stats \<Rightarrow> printed list \<times> py_error option" where
  "report address_stats =
     (if address_stats = [] then ([Message NO_TRANSACTIONS_MESSAGE], None)
      else
        (let lines = map (\<lambda>validator_count.
                            Operators_line validator_count
                              (validator_counts address_stats validator_count))
                       (sorted_counts address_stats);
             total = total_validators address_stats;
             largest = last (sorted_counts address_stats)
         in if total = 0
            then (lines @ [Total_line total, Max_line largest], Some ZeroDivisionError)
            else (lines @ [Total_line total, Max_line largest,
                           Ratio_line (real_of_int largest / real_of_int total)], None)))"

text \<open>The part of \<^verbatim>\<open>summarize_validators_by_operator\<close> after the fetch.\<close>

definition summarize ::
  "(string \<Rightarrow> py_error + string) \<Rightarrow> string \<Rightarrow> tx list \<Rightarrow> printed list \<times> py_error option" where
  "summarize cs vault_address transactions =
     (case aggregate cs vault_address transactions [] of
        Inl e \<Rightarrow> ([], Some e)
      | Inr address_stats \<Rightarrow> report address_stats)"

subsection \<open>The transaction fetcher\<close>

text \<open>
  The network is a script: the list of the answers to the successive calls of
  \<^verbatim>\<open>requests.get\<close>. An answer is a transport failure (a \<^verbatim>\<open>RequestException\<close> that is
  not an \<^verbatim>\<open>HTTPError\<close>) or a status code with a body. \<^verbatim>\<open>raise_for_status\<close> raises
  \<^verbatim>\<open>HTTPError\<close> for the codes 400 to 599. The body is not JSON, or JSON that is not
  an object (\<^verbatim>\<open>data.get\<close> raises \<^verbatim>\<open>AttributeError\<close>), or an object. Of an object the
  script reads \<^verbatim>\<open>status\<close> and \<^verbatim>\<open>message\<close> (\<open>None\<close> when the key is missing or not a
  string) and \<^verbatim>\<open>result\<close>, which is missing, a sequence of records, or a value without
  length such as \<^verbatim>\<open>null\<close> (\<^verbatim>\<open>len\<close> raises \<^verbatim>\<open>TypeError\<close>).
\<close>

datatype 'a result_field = Absent | Items "'a list" | Unsized

datatype 'a body =
    Not_json
  | Non_object
  | Object (status: "string option") (message: "string option") (result: "'a result_field")

datatype 'a response = Transport_error | Http nat "'a body"

text \<open>What the fetcher does to the outside: requests, sleeps and log records.\<close>

datatype event =
    Get nat
  | Sleep nat
  | Log_info nat nat
  | Log_warning nat
  | Log_error nat

definition raise_for_status :: "nat \<Rightarrow> bool" where
  "raise_for_status status_code = (400 \<le> status_code \<and> status_code < 600)"

definition get_result :: "'a result_field \<Rightarrow> py_error + 'a list" where
  "get_result r = (case r of Absent \<Rightarrow> Inr [] | Items ts \<Rightarrow> Inr ts | Unsized \<Rightarrow> Inl TypeError)"

text \<open>How one pass through the body of the \<^verbatim>\<open>for\<close> loop ends.\<close>

datatype 'a control =
    Return "'a list"
  | Raise py_error
  | Break "'a list"
  | Continue

text \<open>
  One attempt (lines 75 to 97) on the answer \<open>r\<close>, with the events it causes after the
  request itself. A malformed body raises an exception that both handlers answer alike:
  an error is logged and the accumulated list is returned.
\<close>

definition attempt_page ::
  "'a response \<Rightarrow> nat \<Rightarrow> nat \<Rightarrow> 'a list \<Rightarrow> event list \<times> 'a control" where
  "attempt_page r page attempt all_transactions =
     (case r of
        Transport_error \<Rightarrow> ([Log_error page], Return all_transactions)
      | Http status_code b \<Rightarrow>
          if raise_for_status status_code then
            (if status_code = 429 \<and> attempt < MAX_RETRIES - 1
             then ([Sleep (RETRY_DELAY * 2 ^ attempt)], Continue)
             else ([Log_error page], Return all_transactions))
          else
            (case b of
               Not_json \<Rightarrow> ([Log_error page], Return all_transactions)
             | Non_object \<Rightarrow> ([], Raise AttributeError)
             | Object st msg res \<Rightarrow>
                 if st = Some ''0'' then ([Log_warning page], Return all_transactions)
                 else
                   (case get_result res of
                      Inl e \<Rightarrow> ([], Raise e)
                    | Inr transactions \<Rightarrow>
                        if length transactions < PAGE_OFFSET
                        then ([Log_info (length transactions) page],
                              Return (all_transactions @ transactions))
                        else ([Log_info (length transactions) page],
                              Break (all_transactions @ transactions)))))"

text \<open>
  The two nested loops. Each request consumes one answer of the script; \<open>None\<close> says that
  the script ended before the fetcher returned, that is, the fetcher would send another
  request. After \<^verbatim>\<open>continue\<close> the \<^verbatim>\<open>for\<close> loop takes the next attempt, and when
  \<^verbatim>\<open>range(MAX_RETRIES)\<close> is used up the \<^verbatim>\<open>while\<close> loop starts it again on the same page.
\<close>

fun fetch_loop ::
  "'a response list \<Rightarrow> nat \<Rightarrow> nat \<Rightarrow> 'a list \<Rightarrow> event list
     \<Rightarrow> (event list \<times> (py_error + 'a list)) option" where
  "fetch_loop [] page attempt all_transactions events = None"
| "fetch_loop (r # rs) page attempt all_transactions events =
     (case attempt_page r page attempt all_transactions of
        (evs, Return txs) \<Rightarrow> Some (events @ Get page # evs, Inr txs)
      | (evs, Raise e) \<Rightarrow> Some (events @ Get page # evs, Inl e)
      | (evs, Break txs) \<Rightarrow> fetch_loop rs (page + 1) 0 txs (events @ Get page # evs)
      | (evs, Continue) \<Rightarrow>
          fetch_loop rs page (if attempt + 1 < MAX_RETRIES then attempt + 1 else 0)
            all_transactions (events @ Get page # evs))"

definition fetch_multicall_transactions ::
  "'a response list \<Rightarrow> (event list \<times> (py_error + 'a list)) option" where
  "fetch_multicall_transactions responses = fetch_loop responses 1 0 [] []"

subsection \<open>The whole script\<close>

text \<open>
  \<^verbatim>\<open>summarize_validators_by_operator\<close>: \<open>node_up\<close> is the answer of the node to
  \<^verbatim>\<open>is_connected\<close>.
\<close>

definition summarize_validators_by_operator ::
  "bool \<Rightarrow> (string \<Rightarrow> py_error + string) \<Rightarrow> tx response list
     \<Rightarrow> (printed list \<times> py_error option) option" where
  "summarize_validators_by_operator node_up cs responses =
     (if \<not> node_up then Some ([], Some ConnectionError)
      else
        (case cs MULTICALL_ADDRESS of
           Inl e \<Rightarrow> Some ([], Some e)
         | Inr multicall_address \<Rightarrow>
             (case cs NODESET_VAULT_ADDRESS of
                Inl e \<Rightarrow> Some ([], Some e)
              | Inr vault_address \<Rightarrow>
                  (case fetch_multicall_transactions responses of
                     None \<Rightarrow> None
                   | Some (events, Inl e) \<Rightarrow> Some ([], Some e)
                   | Some (events, Inr transactions) \<Rightarrow>
                       Some (summarize cs vault_address transactions)))))"

subsection \<open>Notions for the properties of the fetcher\<close>

text \<open>
  The records of an answer that the fetcher takes as a page: the status code is no error,
  the body is an object whose \<^verbatim>\<open>status\<close> is not \<^verbatim>\<open>'0'\<close>, and \<^verbatim>\<open>result\<close> is a
  sequence (or missing, which reads as the empty one).
\<close>

definition page_records :: "'a response \<Rightarrow> 'a list option" where
  "page_records r =
     (case r of
        Transport_error \<Rightarrow> None
      | Http status_code b \<Rightarrow>
          if raise_for_status status_code then None
          else (case b of
                  Not_json \<Rightarrow> None
                | Non_object \<Rightarrow> None
                | Object st msg res \<Rightarrow>
                    if st = Some ''0'' then None
                    else (case res of Absent \<Rightarrow> Some [] | Items ts \<Rightarrow> Some ts | Unsized \<Rightarrow> None)))"



text \<open>The page numbers requested, in order.\<close>

definition page_requests :: "event list \<Rightarrow> nat list" where
  "page_requests events = concat (map (\<lambda>e. case e of Get p \<Rightarrow> [p] | _ \<Rightarrow> []) events)"

subsection \<open>The summary as the specification words it\<close>

text \<open>
  The quantities of the specification, written from its words and not from the code: the
  records passed downstream are the aggregate calls that are relevant to the vault, an
  operator is the normalised sender of such a record, its count is the number of its
  records whose error flag reads as zero, and a bucket of the histogram holds the
  operators with one count. A sender is well formed for \<open>cs\<close> when \<open>cs\<close> returns an
  address for it.
\<close>

definition senders_well_formed :: "(string \<Rightarrow> py_error + string) \<Rightarrow> tx list \<Rightarrow> bool" where
  "senders_well_formed cs transactions =
     (\<forall>t \<in> set transactions. is_aggregate_call t \<longrightarrow> (\<exists>a. cs (tx_from t) = Inr a))"

definition relevant_records :: "string \<Rightarrow> tx list \<Rightarrow> tx list" where
  "relevant_records vault_address transactions =
     filter (\<lambda>t. is_aggregate_call t \<and> is_nodeset_transaction t vault_address) transactions"

definition operators :: "(string \<Rightarrow> py_error + string) \<Rightarrow> string \<Rightarrow> tx list \<Rightarrow> string set" where
  "operators cs vault_address transactions =
     {k. \<exists>t \<in> set (relevant_records vault_address transactions). cs (tx_from t) = Inr k}"

definition successful_calls ::
  "(string \<Rightarrow> py_error + string) \<Rightarrow> string \<Rightarrow> tx list \<Rightarrow> string \<Rightarrow> int" where
  "successful_calls cs vault_address transactions operator =
     int (length (filter (\<lambda>t. cs (tx_from t) = Inr operator \<and> py_int (get_isError t) = Inr 0)
                    (relevant_records vault_address transactions)))"

definition operators_with ::
  "(string \<Rightarrow> py_error + string) \<Rightarrow> string \<Rightarrow> tx list \<Rightarrow> int \<Rightarrow> nat" where
  "operators_with cs vault_address transactions c =
     card {k \<in> operators cs vault_address transactions.
             successful_calls cs vault_address transactions k = c}"

definition validator_total :: "(string \<Rightarrow> py_error + string) \<Rightarrow> string \<Rightarrow> tx list \<Rightarrow> int" where
  "validator_total cs vault_address transactions =
     (\<Sum>c \<in> successful_calls cs vault_address transactions
                ` operators cs vault_address transactions.
        c * int (operators_with cs vault_address transactions c))"

definition validator_max :: "(string \<Rightarrow> py_error + string) \<Rightarrow> string \<Rightarrow> tx list \<Rightarrow> int" where
  "validator_max cs vault_address transactions =
     Max (successful_calls cs vault_address transactions
            ` operators cs vault_address transactions)"

text \<open>
  Relevance in the words of the specification: the payload contains the hex digits of
  the vault address somewhere, letters compared without regard to case.
\<close>

definition contains_ignoring_case :: "string \<Rightarrow> string \<Rightarrow> bool" where
  "contains_ignoring_case payload digits =
     (\<exists>before mid after. payload = before @ mid @ after \<and> lower mid = lower digits)"

subsection \<open>Sample records\<close>

text \<open>
  Two senders as the indexing API writes them (lower case), the checksummed addresses
  that \<^verbatim>\<open>to_checksum_address\<close> returns for them (they are the examples of EIP-55), and
  the checksum function on these two addresses, in any case of the letters; on every other
  string this table says \<^verbatim>\<open>ValueError\<close>, as the library does for a string that is no
  address. The examples below use it in the place of \<open>cs\<close>.
\<close>

definition sender_a :: string where
  "sender_a = ''0x5aaeb6053f3e94c9b9a09f33669435e7ef1beaed''"

definition sender_b :: string where
  "sender_b = ''0xfb6916095ca1df60bb79ce92ce3ea74c37c5d359''"

definition operator_a :: string where
  "operator_a = ''0x5aAeb6053F3E94C9b9A09f33669435E7Ef1BeAed''"

definition operator_b :: string where
  "operator_b = ''0xfB6916095ca1df60bB79Ce92cE3Ea74c37c5d359''"

definition sample_checksum :: "string \<Rightarrow> py_error + string" where
  "sample_checksum a =
     (if lower a = sender_a then Inr operator_a
      else if lower a = sender_b then Inr operator_b
      else Inl ValueError)"

text \<open>
  An aggregate call that mentions the vault, from a given sender and with a given error
  flag.
\<close>

definition sample_call :: "string \<Rightarrow> string \<Rightarrow> tx" where
  "sample_call sender flag =
     \<lparr>tx_from = sender,
      tx_input = Some ''0x252dba42000000000000000000000000b266274f55e784689e97b7e363b0666d92e6305b'',
      tx_hash = ''0x01'', tx_isError = Some flag\<rparr>"

section \<open>Properties of the aggregation pass\<close>

subsection \<open>Auxiliary facts\<close>

lemma lower_AGGREGATE_SIGNATURE: "lower AGGREGATE_SIGNATURE = ''0x252dba42''"
  by code_simp

lemma length_lower [simp]: "length (lower s) = length s"
  by (simp add: lower_def)

lemma is_aggregate_call_iff:
  "is_aggregate_call t \<longleftrightarrow> lower (take 10 (get_input t)) = lower ''0x252dba42''"
proof -
  have l: "lower ''0x252dba42'' = ''0x252dba42''" by code_simp
  have "length (get_input t) \<ge> 10" if "lower (take 10 (get_input t)) = ''0x252dba42''"
  proof -
    from that have "length (lower (take 10 (get_input t))) = 10" by simp
    then have "min (length (get_input t)) 10 = 10" by simp
    then show ?thesis by linarith
  qed
  then show ?thesis
    unfolding is_aggregate_call_def Let_def lower_AGGREGATE_SIGNATURE l by auto
qed

lemma sample_call_simps [simp]:
  "tx_from (sample_call s f) = s" "get_isError (sample_call s f) = f"
  by (simp_all add: sample_call_def get_isError_def)

lemma sample_call_aggregate: "is_aggregate_call (sample_call s f)"
proof -
  have "is_aggregate_call \<lparr>tx_from = [],
      tx_input = Some ''0x252dba42000000000000000000000000b266274f55e784689e97b7e363b0666d92e6305b'',
      tx_hash = [], tx_isError = None\<rparr>"
    by code_simp
  then show ?thesis
    by (simp add: is_aggregate_call_def get_input_def sample_call_def)
qed

lemma sample_call_relevant: "is_nodeset_transaction (sample_call s f) NODESET_VAULT_ADDRESS"
proof -
  have "is_nodeset_transaction \<lparr>tx_from = [],
      tx_input = Some ''0x252dba42000000000000000000000000b266274f55e784689e97b7e363b0666d92e6305b'',
      tx_hash = [], tx_isError = None\<rparr> NODESET_VAULT_ADDRESS"
    by code_simp
  then show ?thesis
    by (simp add: is_nodeset_transaction_def get_input_def sample_call_def)
qed

lemma sample_checksum_a: "sample_checksum sender_a = Inr operator_a"
  by code_simp

lemma sample_checksum_b: "sample_checksum sender_b = Inr operator_b"
  by code_simp

lemma operators_differ: "operator_a \<noteq> operator_b" "operator_b \<noteq> operator_a"
  by (simp_all add: operator_a_def operator_b_def)

lemma py_int_0: "py_int ''0'' = Inr 0" by code_simp
lemma py_int_1: "py_int ''1'' = Inr 1" by code_simp

lemma aggregate_append:
  "aggregate cs v (xs @ ys) st =
     (case aggregate cs v xs st of Inl e \<Rightarrow> Inl e | Inr st1 \<Rightarrow> aggregate cs v ys st1)"
  by (induction xs arbitrary: st) (auto split: sum.splits)

lemma process_tx_not_aggregate:
  "\<not> is_aggregate_call t \<Longrightarrow> process_tx cs v t st = Inr st"
  by (simp add: process_tx_def)

lemma process_tx_not_relevant:
  "cs (tx_from t) = Inr a \<Longrightarrow> \<not> is_nodeset_transaction t v \<Longrightarrow> process_tx cs v t st = Inr st"
  by (simp add: process_tx_def)

text \<open>A sender that \<open>cs\<close> rejects ends the pass at an aggregate call, relevant or not.\<close>

lemma process_tx_sender_error:
  "is_aggregate_call t \<Longrightarrow> cs (tx_from t) = Inl e \<Longrightarrow> process_tx cs v t st = Inl e"
  by (simp add: process_tx_def)

lemma process_tx_Inr_skip:
  assumes "process_tx cs v t st = Inr st1"
    and "\<not> (is_aggregate_call t \<and> is_nodeset_transaction t v)"
  shows "st1 = st"
  using assms by (auto simp: process_tx_def split: if_splits sum.splits)

lemma process_tx_Inr_sender:
  assumes "process_tx cs v t st = Inr st1" and "is_aggregate_call t"
  shows "\<exists>a. cs (tx_from t) = Inr a"
  using assms by (cases "cs (tx_from t)") (auto simp: process_tx_def)

lemma process_tx_Inr_flag:
  assumes "process_tx cs v t st = Inr st1" "is_aggregate_call t" "is_nodeset_transaction t v"
  shows "\<exists>n. py_int (get_isError t) = Inr n"
  using assms
  by (cases "py_int (get_isError t)"; cases "cs (tx_from t)") (auto simp: process_tx_def Let_def)

subsection \<open>Records that are not aggregate calls\<close>

text \<open>
  Claim C4. A record whose payload does not begin, case-insensitively, with the ten
  characters \<^verbatim>\<open>0x252dba42\<close> is excluded from the aggregation: processing it returns the
  operator statistics as they were (no entry is created, no count changes), and the
  whole pass gives the same result as on the list without that record. Nothing is asked
  of the rest of the payload, so this holds whether or not the vault address occurs in it.
\<close>

theorem non_aggregate_excluded:
  assumes "lower (take 10 (get_input t)) \<noteq> lower ''0x252dba42''"
  shows "process_tx cs vault_address t address_stats = Inr address_stats
       \<and> aggregate cs vault_address (before @ t # after) address_stats
         = aggregate cs vault_address (before @ after) address_stats"
proof -
  from assms have n: "\<not> is_aggregate_call t" by (simp add: is_aggregate_call_iff)
  then have p: "process_tx cs vault_address t st = Inr st" for st
    by (simp add: process_tx_not_aggregate)
  show ?thesis
    by (simp add: p aggregate_append split: sum.splits)
qed

text \<open>
  An ERC-20 transfer whose payload mentions the vault: it is relevant, it is not an
  aggregate call, and it leaves the statistics alone.
\<close>

theorem non_aggregate_excluded_witness:
  "lower (take 10 (get_input
      \<lparr>tx_from = sender_a,
       tx_input = Some ''0xa9059cbb000000000000000000000000b266274f55e784689e97b7e363b0666d92e6305b'',
       tx_hash = ''0x01'', tx_isError = Some ''0''\<rparr>)) \<noteq> lower ''0x252dba42''
   \<and> is_nodeset_transaction
      \<lparr>tx_from = sender_a,
       tx_input = Some ''0xa9059cbb000000000000000000000000b266274f55e784689e97b7e363b0666d92e6305b'',
       tx_hash = ''0x01'', tx_isError = Some ''0''\<rparr> NODESET_VAULT_ADDRESS
   \<and> process_tx sample_checksum NODESET_VAULT_ADDRESS
      \<lparr>tx_from = sender_a,
       tx_input = Some ''0xa9059cbb000000000000000000000000b266274f55e784689e97b7e363b0666d92e6305b'',
       tx_hash = ''0x01'', tx_isError = Some ''0''\<rparr>
      [(operator_a, \<lparr>successful = 2\<rparr>)] = Inr [(operator_a, \<lparr>successful = 2\<rparr>)]"
proof -
  let ?t = "\<lparr>tx_from = sender_a,
       tx_input = Some ''0xa9059cbb000000000000000000000000b266274f55e784689e97b7e363b0666d92e6305b'',
       tx_hash = ''0x01'', tx_isError = Some ''0''\<rparr>"
  have "lower (take 10 (get_input \<lparr>tx_from = [],
       tx_input = Some ''0xa9059cbb000000000000000000000000b266274f55e784689e97b7e363b0666d92e6305b'',
       tx_hash = [], tx_isError = None\<rparr>)) \<noteq> lower ''0x252dba42''"
    by code_simp
  then have h: "lower (take 10 (get_input ?t)) \<noteq> lower ''0x252dba42''"
    by (simp add: get_input_def)
  have "is_nodeset_transaction \<lparr>tx_from = [],
       tx_input = Some ''0xa9059cbb000000000000000000000000b266274f55e784689e97b7e363b0666d92e6305b'',
       tx_hash = [], tx_isError = None\<rparr> NODESET_VAULT_ADDRESS"
    by code_simp
  then have r: "is_nodeset_transaction ?t NODESET_VAULT_ADDRESS"
    by (simp add: is_nodeset_transaction_def get_input_def)
  from non_aggregate_excluded [OF h, of sample_checksum NODESET_VAULT_ADDRESS
      "[(operator_a, \<lparr>successful = 2\<rparr>)]" "[]" "[]"] h r
  show ?thesis by blast
qed

subsection \<open>One relevant record\<close>

text \<open>
  What the loop body does with a relevant aggregate call whose sender normalises and
  whose flag parses.
\<close>

lemma process_tx_relevant:
  assumes "is_aggregate_call t" "is_nodeset_transaction t v" "cs (tx_from t) = Inr a"
    and "py_int (get_isError t) = Inr n"
  shows "\<exists>st1. process_tx cs v t st = Inr st1
     \<and> map_of st1 = (map_of st)(a \<mapsto>
          \<lparr>successful = (case map_of st a of None \<Rightarrow> 0 | Some s \<Rightarrow> successful s)
                         + (if n = 0 then 1 else 0)\<rparr>)
     \<and> fst ` set st1 = insert a (fst ` set st)
     \<and> (distinct (map fst st) \<longrightarrow> distinct (map fst st1))"
proof -
  let ?st1 = "if map_of st a = None then AList.update a \<lparr>successful = 0\<rparr> st else st"
  let ?st2 = "if n = 0 then AList.map_entry a (\<lambda>s. s\<lparr>successful := successful s + 1\<rparr>) ?st1
              else ?st1"
  have p: "process_tx cs v t st = Inr ?st2"
    using assms by (simp add: process_tx_def Let_def)
  have m1: "map_of ?st1 = (map_of st)(a \<mapsto>
      \<lparr>successful = (case map_of st a of None \<Rightarrow> 0 | Some s \<Rightarrow> successful s)\<rparr>)"
    by (auto simp: AList.update_conv' fun_eq_iff)
  have m2: "map_of ?st2 = (map_of st)(a \<mapsto>
      \<lparr>successful = (case map_of st a of None \<Rightarrow> 0 | Some s \<Rightarrow> successful s)
                     + (if n = 0 then 1 else 0)\<rparr>)"
  proof (cases "n = 0")
    case True
    then have "map_of ?st2 = map_of (AList.map_entry a (\<lambda>s. s\<lparr>successful := successful s + 1\<rparr>) ?st1)"
      by simp
    also have "\<dots> = (map_of ?st1)(a := case map_of ?st1 a of None \<Rightarrow> None
                       | Some s \<Rightarrow> Some (s\<lparr>successful := successful s + 1\<rparr>))"
      by (rule AList.map_of_map_entry)
    also have "\<dots> = (map_of st)(a \<mapsto>
      \<lparr>successful = (case map_of st a of None \<Rightarrow> 0 | Some s \<Rightarrow> successful s) + 1\<rparr>)"
      unfolding m1 by simp
    finally show ?thesis using True by simp
  next
    case False
    then show ?thesis using m1 by simp
  qed
  have k1: "fst ` set ?st1 = insert a (fst ` set st)"
    by (auto simp: AList.dom_update map_of_eq_None_iff)
  have k2: "fst ` set ?st2 = insert a (fst ` set st)"
    using k1 by (simp add: AList.dom_map_entry)
  have d1: "distinct (map fst st) \<Longrightarrow> distinct (map fst ?st1)"
    by (simp add: AList.distinct_update)
  have d2: "distinct (map fst st) \<Longrightarrow> distinct (map fst ?st2)"
    using d1 by (simp add: AList.distinct_map_entry)
  show ?thesis
    using p m2 k2 d2 by blast
qed

subsection \<open>Failed calls\<close>

text \<open>
  Claim C6. Let a record be an aggregate call that is relevant to the vault, let its
  sender normalise to the address \<open>from_address\<close>, and let its error flag read as the
  integer \<open>flag\<close>. Processing the record succeeds, and the new statistics are the old ones
  except at the sender: there the count is the old count (0 for a sender not seen before,
  whose entry is created) plus one when \<open>flag\<close> is zero, and plus nothing when it is not.
  So a failed call leaves the sender's count as it was, only a call with flag zero
  increments it, by exactly one, and no other entry changes.
\<close>

theorem failed_call_leaves_count:
  assumes "is_aggregate_call t" and "is_nodeset_transaction t vault_address"
    and "cs (tx_from t) = Inr from_address"
    and "py_int (get_isError t) = Inr flag"
  shows "\<exists>stats1. process_tx cs vault_address t address_stats = Inr stats1
     \<and> map_of stats1 = (map_of address_stats)(from_address \<mapsto>
          \<lparr>successful = (case map_of address_stats from_address of
                           None \<Rightarrow> 0 | Some s \<Rightarrow> successful s)
                         + (if flag = 0 then 1 else 0)\<rparr>)"
  using process_tx_relevant [where cs = cs and st = address_stats, OF assms] by blast

text \<open>
  A failed relevant call of a known sender, and of an unknown one: the known count stays
  2, the unknown sender enters with 0.
\<close>

theorem failed_call_leaves_count_witness:
  "is_aggregate_call (sample_call sender_a ''1'')
   \<and> is_nodeset_transaction (sample_call sender_a ''1'') NODESET_VAULT_ADDRESS
   \<and> sample_checksum (tx_from (sample_call sender_a ''1'')) = Inr operator_a
   \<and> py_int (get_isError (sample_call sender_a ''1'')) = Inr 1
   \<and> (\<exists>stats1. process_tx sample_checksum NODESET_VAULT_ADDRESS (sample_call sender_a ''1'')
        [(operator_a, \<lparr>successful = 2\<rparr>), (operator_b, \<lparr>successful = 5\<rparr>)] = Inr stats1
      \<and> map_of stats1 operator_a = Some \<lparr>successful = 2\<rparr>
      \<and> map_of stats1 operator_b = Some \<lparr>successful = 5\<rparr>)
   \<and> (\<exists>stats1. process_tx sample_checksum NODESET_VAULT_ADDRESS (sample_call sender_a ''1'')
        [(operator_b, \<lparr>successful = 5\<rparr>)] = Inr stats1
      \<and> map_of stats1 operator_a = Some \<lparr>successful = 0\<rparr>
      \<and> map_of stats1 operator_b = Some \<lparr>successful = 5\<rparr>)"
proof -
  let ?t = "sample_call sender_a ''1''"
  note a = sample_call_aggregate [of sender_a "''1''"]
  note r = sample_call_relevant [of sender_a "''1''"]
  have c: "sample_checksum (tx_from ?t) = Inr operator_a"
    by (simp add: sample_checksum_a)
  have f: "py_int (get_isError ?t) = Inr 1"
    by (simp add: py_int_1)
  from failed_call_leaves_count [where cs = sample_checksum
      and address_stats = "[(operator_a, \<lparr>successful = 2\<rparr>), (operator_b, \<lparr>successful = 5\<rparr>)]",
      OF a r c f]
  have one: "\<exists>stats1. process_tx sample_checksum NODESET_VAULT_ADDRESS ?t
      [(operator_a, \<lparr>successful = 2\<rparr>), (operator_b, \<lparr>successful = 5\<rparr>)] = Inr stats1
      \<and> map_of stats1 operator_a = Some \<lparr>successful = 2\<rparr>
      \<and> map_of stats1 operator_b = Some \<lparr>successful = 5\<rparr>"
    by (auto simp: operators_differ)
  from failed_call_leaves_count [where cs = sample_checksum
      and address_stats = "[(operator_b, \<lparr>successful = 5\<rparr>)]", OF a r c f]
  have two: "\<exists>stats1. process_tx sample_checksum NODESET_VAULT_ADDRESS ?t
      [(operator_b, \<lparr>successful = 5\<rparr>)] = Inr stats1
      \<and> map_of stats1 operator_a = Some \<lparr>successful = 0\<rparr>
      \<and> map_of stats1 operator_b = Some \<lparr>successful = 5\<rparr>"
    by (auto simp: operators_differ)
  from a r c f one two show ?thesis by blast
qed

subsection \<open>No relevant record\<close>

lemma senders_well_formed_Cons:
  "senders_well_formed cs (t # ts) \<longleftrightarrow>
     (is_aggregate_call t \<longrightarrow> (\<exists>a. cs (tx_from t) = Inr a)) \<and> senders_well_formed cs ts"
  by (simp add: senders_well_formed_def)

lemma process_tx_skip:
  assumes "\<not> (is_aggregate_call t \<and> is_nodeset_transaction t v)"
    and "is_aggregate_call t \<longrightarrow> (\<exists>a. cs (tx_from t) = Inr a)"
  shows "process_tx cs v t st = Inr st"
proof (cases "is_aggregate_call t")
  case False
  then show ?thesis by (rule process_tx_not_aggregate)
next
  case True
  with assms obtain a where "cs (tx_from t) = Inr a" and "\<not> is_nodeset_transaction t v"
    by blast
  then show ?thesis by (rule process_tx_not_relevant)
qed

lemma aggregate_skip_all:
  assumes "\<forall>t \<in> set txs. \<not> (is_aggregate_call t \<and> is_nodeset_transaction t v)"
    and "senders_well_formed cs txs"
  shows "aggregate cs v txs st = Inr st"
  using assms
proof (induction txs arbitrary: st)
  case Nil
  then show ?case by simp
next
  case (Cons t txs)
  from Cons.prems have "process_tx cs v t st = Inr st"
    by (intro process_tx_skip) (simp_all add: senders_well_formed_Cons)
  moreover from Cons.prems have "aggregate cs v txs st = Inr st"
    by (intro Cons.IH) (simp_all add: senders_well_formed_Cons)
  ultimately show ?case by simp
qed

text \<open>
  Claim C7. When no record of the fetched list is both an aggregate call and relevant to
  the vault, and the sender of every aggregate call is a string that
  \<^verbatim>\<open>to_checksum_address\<close> accepts (line 135 normalises it before the relevance test), the
  summary prints the one line \<^verbatim>\<open>No NodeSet-related Aggregate transactions found.\<close> and
  returns normally: no histogram, total, maximum or ratio is printed, and no exception (in
  particular no division by zero) ends the function.
\<close>

theorem no_relevant_record_empty_result:
  assumes "\<forall>t \<in> set transactions.
             \<not> (is_aggregate_call t \<and> is_nodeset_transaction t vault_address)"
    and "senders_well_formed cs transactions"
  shows "summarize cs vault_address transactions
           = ([Message ''No NodeSet-related Aggregate transactions found.''], None)"
  using aggregate_skip_all [OF assms, of "[]"]
  by (simp add: summarize_def report_def NO_TRANSACTIONS_MESSAGE_def)

text \<open>
  A list with an aggregate call that does not mention the vault and a transfer that
  does, both from senders that are addresses.
\<close>

theorem no_relevant_record_empty_result_witness:
  "\<not> (is_aggregate_call
        \<lparr>tx_from = sender_a, tx_input = Some ''0x252dba4200000000'',
         tx_hash = ''0x01'', tx_isError = Some ''0''\<rparr>
      \<and> is_nodeset_transaction
        \<lparr>tx_from = sender_a, tx_input = Some ''0x252dba4200000000'',
         tx_hash = ''0x01'', tx_isError = Some ''0''\<rparr> NODESET_VAULT_ADDRESS)
   \<and> \<not> (is_aggregate_call
        \<lparr>tx_from = sender_b,
         tx_input = Some ''0xa9059cbbb266274f55e784689e97b7e363b0666d92e6305b'',
         tx_hash = ''0x02'', tx_isError = Some ''0''\<rparr>
      \<and> is_nodeset_transaction
        \<lparr>tx_from = sender_b,
         tx_input = Some ''0xa9059cbbb266274f55e784689e97b7e363b0666d92e6305b'',
         tx_hash = ''0x02'', tx_isError = Some ''0''\<rparr> NODESET_VAULT_ADDRESS)
   \<and> is_aggregate_call
        \<lparr>tx_from = sender_a, tx_input = Some ''0x252dba4200000000'',
         tx_hash = ''0x01'', tx_isError = Some ''0''\<rparr>
   \<and> sample_checksum sender_a = Inr operator_a
   \<and> senders_well_formed sample_checksum
        [\<lparr>tx_from = sender_a, tx_input = Some ''0x252dba4200000000'',
          tx_hash = ''0x01'', tx_isError = Some ''0''\<rparr>,
         \<lparr>tx_from = sender_b,
          tx_input = Some ''0xa9059cbbb266274f55e784689e97b7e363b0666d92e6305b'',
          tx_hash = ''0x02'', tx_isError = Some ''0''\<rparr>]
   \<and> summarize sample_checksum NODESET_VAULT_ADDRESS
        [\<lparr>tx_from = sender_a, tx_input = Some ''0x252dba4200000000'',
          tx_hash = ''0x01'', tx_isError = Some ''0''\<rparr>,
         \<lparr>tx_from = sender_b,
          tx_input = Some ''0xa9059cbbb266274f55e784689e97b7e363b0666d92e6305b'',
          tx_hash = ''0x02'', tx_isError = Some ''0''\<rparr>]
       = ([Message ''No NodeSet-related Aggregate transactions found.''], None)"
proof -
  let ?t1 = "\<lparr>tx_from = sender_a, tx_input = Some ''0x252dba4200000000'',
         tx_hash = ''0x01'', tx_isError = Some ''0''\<rparr>"
  let ?t2 = "\<lparr>tx_from = sender_b,
         tx_input = Some ''0xa9059cbbb266274f55e784689e97b7e363b0666d92e6305b'',
         tx_hash = ''0x02'', tx_isError = Some ''0''\<rparr>"
  have "is_aggregate_call \<lparr>tx_from = [], tx_input = Some ''0x252dba4200000000'',
         tx_hash = [], tx_isError = None\<rparr>"
    by code_simp
  then have a1: "is_aggregate_call ?t1"
    by (simp add: is_aggregate_call_def get_input_def)
  have "\<not> is_nodeset_transaction \<lparr>tx_from = [], tx_input = Some ''0x252dba4200000000'',
         tx_hash = [], tx_isError = None\<rparr> NODESET_VAULT_ADDRESS"
    by code_simp
  then have n1: "\<not> is_nodeset_transaction ?t1 NODESET_VAULT_ADDRESS"
    by (simp add: is_nodeset_transaction_def get_input_def)
  have "\<not> is_aggregate_call \<lparr>tx_from = [],
         tx_input = Some ''0xa9059cbbb266274f55e784689e97b7e363b0666d92e6305b'',
         tx_hash = [], tx_isError = None\<rparr>"
    by code_simp
  then have a2: "\<not> is_aggregate_call ?t2"
    by (simp add: is_aggregate_call_def get_input_def)
  have h1: "\<not> (is_aggregate_call ?t1 \<and> is_nodeset_transaction ?t1 NODESET_VAULT_ADDRESS)"
    using n1 by simp
  have h2: "\<not> (is_aggregate_call ?t2 \<and> is_nodeset_transaction ?t2 NODESET_VAULT_ADDRESS)"
    using a2 by simp
  have h: "\<forall>t \<in> set [?t1, ?t2].
      \<not> (is_aggregate_call t \<and> is_nodeset_transaction t NODESET_VAULT_ADDRESS)"
    using h1 h2 by simp
  have w: "senders_well_formed sample_checksum [?t1, ?t2]"
    using a2 by (simp add: senders_well_formed_def sample_checksum_a)
  from no_relevant_record_empty_result [OF h w] h1 h2 a1 w sample_checksum_a
  show ?thesis by blast
qed

text \<open>
  Without the hypothesis on the senders the pass can end in the exception of
  \<^verbatim>\<open>to_checksum_address\<close>: an aggregate call from a sender that \<open>cs\<close> rejects, after
  records that leave the dictionary empty, ends the summary with that exception and
  nothing printed, whether or not the call is relevant.
\<close>

lemma malformed_sender_raises:
  assumes "\<forall>t \<in> set before. \<not> (is_aggregate_call t \<and> is_nodeset_transaction t v)"
    and "senders_well_formed cs before"
    and "is_aggregate_call t" and "cs (tx_from t) = Inl e"
  shows "summarize cs v (before @ t # after) = ([], Some e)"
  using aggregate_skip_all [OF assms(1,2), of "[]"]
    process_tx_sender_error [where cs = cs and v = v and st = "[]", OF assms(3,4)]
  by (simp add: summarize_def aggregate_append)

subsection \<open>The statistics after the pass\<close>

text \<open>The statistics after the pass, entry by entry.\<close>

lemma aggregate_entries:
  assumes "aggregate cs v txs st = Inr st1" and "distinct (map fst st)"
  shows "distinct (map fst st1)
     \<and> fst ` set st1 = fst ` set st \<union> operators cs v txs
     \<and> (\<forall>k s. map_of st1 k = Some s \<longrightarrow>
           successful s = (case map_of st k of None \<Rightarrow> 0 | Some s0 \<Rightarrow> successful s0)
                          + successful_calls cs v txs k)"
  using assms
proof (induction txs arbitrary: st)
  case Nil
  then show ?case
    by (auto simp: operators_def successful_calls_def relevant_records_def)
next
  case (Cons t txs)
  from Cons.prems(1) obtain st2 where p: "process_tx cs v t st = Inr st2"
    and a: "aggregate cs v txs st2 = Inr st1"
    by (auto split: sum.splits)
  show ?case
  proof (cases "is_aggregate_call t \<and> is_nodeset_transaction t v")
    case False
    then have "st2 = st" using process_tx_Inr_skip [OF p] by simp
    with Cons.IH [of st] a Cons.prems(2) False show ?thesis
      by (auto simp: operators_def successful_calls_def relevant_records_def)
  next
    case True
    then obtain n where n: "py_int (get_isError t) = Inr n"
      using process_tx_Inr_flag [OF p] by blast
    from True obtain x where x: "cs (tx_from t) = Inr x"
      using process_tx_Inr_sender [OF p] by blast
    from process_tx_relevant [where cs = cs and st = st and v = v, OF _ _ x n] True p
    have m: "map_of st2 = (map_of st)(x \<mapsto>
          \<lparr>successful = (case map_of st x of None \<Rightarrow> 0 | Some s \<Rightarrow> successful s)
                         + (if n = 0 then 1 else 0)\<rparr>)"
      and k: "fst ` set st2 = insert x (fst ` set st)"
      and d: "distinct (map fst st2)"
      using Cons.prems(2) by auto
    note ih = Cons.IH [OF a d]
    have ops: "operators cs v (t # txs) = insert x (operators cs v txs)"
      using True x by (auto simp: operators_def relevant_records_def)
    have sc: "successful_calls cs v (t # txs) y =
        (if x = y \<and> n = 0 then 1 else 0) + successful_calls cs v txs y" for y
      using True n x by (simp add: successful_calls_def relevant_records_def)
    show ?thesis
      using ih unfolding ops sc k m
      by (auto split: option.splits)
  qed
qed

subsection \<open>The report, in terms of the counts\<close>

lemma foldl_add_sum_list:
  "foldl (\<lambda>total c. total + g c) a xs = a + sum_list (map g xs)" for a :: int
  by (induction xs arbitrary: a) auto

lemma sorted_counts_set [simp]:
  "set (sorted_counts st) = set (map (successful \<circ> snd) st)"
  by (simp add: sorted_counts_def)

lemma sorted_counts_distinct [simp]: "distinct (sorted_counts st)"
  by (simp add: sorted_counts_def)

lemma sorted_counts_conv:
  "sorted_counts st = sorted_list_of_set (set (map (successful \<circ> snd) st))"
  unfolding sorted_counts_def by (rule sorted_list_of_set_sort_remdups [symmetric])

lemma total_validators_sum:
  "total_validators st =
     (\<Sum>c \<in> set (map (successful \<circ> snd) st). c * int (validator_counts st c))"
proof -
  have "total_validators st =
      sum_list (map (\<lambda>c. int (validator_counts st c) * c) (sorted_counts st))"
    by (simp add: total_validators_def foldl_add_sum_list)
  also have "\<dots> = (\<Sum>c \<in> set (sorted_counts st). int (validator_counts st c) * c)"
    by (rule sum_list_distinct_conv_sum_set) simp
  finally show ?thesis by (simp add: mult.commute)
qed

lemma last_sorted_counts:
  assumes "st \<noteq> []"
  shows "last (sorted_counts st) = Max (set (map (successful \<circ> snd) st))"
proof -
  let ?xs = "sorted_counts st"
  have "set ?xs \<noteq> {}" using assms by simp
  then have ne: "?xs \<noteq> []" using set_empty by blast
  have s: "sorted ?xs" by (simp add: sorted_counts_def)
  have "Max (set ?xs) = last ?xs"
  proof (rule Max_eqI)
    show "finite (set ?xs)" by simp
    show "last ?xs \<in> set ?xs" using ne by (rule last_in_set)
    show "y \<le> last ?xs" if "y \<in> set ?xs" for y
      using s that ne by (metis in_set_conv_nth last_conv_nth sorted_nth_mono
          Suc_pred' length_greater_0_conv less_Suc_eq_le diff_Suc_1 order_refl diff_less zero_less_one)
  qed
  then show ?thesis by simp
qed

lemma validator_counts_card:
  assumes "distinct (map fst st)"
  shows "validator_counts st c =
           card {k \<in> fst ` set st. \<exists>s. map_of st k = Some s \<and> successful s = c}"
proof -
  have d: "distinct st" using assms by (rule distinct_map [THEN iffD1, THEN conjunct1])
  have inj: "inj_on fst (set st)" using assms by (simp add: distinct_map)
  have "validator_counts st c = length (filter (\<lambda>x. successful (snd x) = c) st)"
    unfolding validator_counts_def by (induction st) auto
  also have "\<dots> = card {x \<in> set st. successful (snd x) = c}"
    using d by (simp add: distinct_length_filter Int_def conj_commute)
  also have "\<dots> = card (fst ` {x \<in> set st. successful (snd x) = c})"
    by (rule card_image [symmetric]) (rule inj_on_subset [OF inj], auto)
  also have "fst ` {x \<in> set st. successful (snd x) = c}
      = {k \<in> fst ` set st. \<exists>s. map_of st k = Some s \<and> successful s = c}"
    using assms by (auto simp: image_iff map_of_eq_Some_iff)
  finally show ?thesis .
qed

lemma aggregate_from_empty:
  assumes "aggregate cs v txs [] = Inr st"
  shows "distinct (map fst st)"
    and "fst ` set st = operators cs v txs"
    and "(k, s) \<in> set st \<Longrightarrow> successful s = successful_calls cs v txs k"
proof -
  from aggregate_entries [OF assms] have d: "distinct (map fst st)"
    and k: "fst ` set st = operators cs v txs"
    and m: "\<And>k s. map_of st k = Some s \<Longrightarrow> successful s = successful_calls cs v txs k"
    by auto
  show "distinct (map fst st)" by (rule d)
  show "fst ` set st = operators cs v txs" by (rule k)
  show "successful s = successful_calls cs v txs k" if "(k, s) \<in> set st"
    using that d m by (simp add: map_of_eq_Some_iff)
qed

lemma counts_set:
  assumes "aggregate cs v txs [] = Inr st"
  shows "set (map (successful \<circ> snd) st) = successful_calls cs v txs ` operators cs v txs"
proof -
  have "set (map (successful \<circ> snd) st) = (\<lambda>x. successful_calls cs v txs (fst x)) ` set st"
    using aggregate_from_empty(3) [OF assms] by (auto simp: image_iff) force+
  also have "\<dots> = successful_calls cs v txs ` fst ` set st"
    by (simp add: image_image)
  finally show ?thesis by (simp only: aggregate_from_empty(2) [OF assms])
qed

lemma validator_counts_operators_with:
  assumes "aggregate cs v txs [] = Inr st"
  shows "validator_counts st c = operators_with cs v txs c"
proof -
  note d = aggregate_from_empty(1) [OF assms]
  have "{k \<in> fst ` set st. \<exists>s. map_of st k = Some s \<and> successful s = c}
      = {k \<in> operators cs v txs. successful_calls cs v txs k = c}"
    using aggregate_from_empty(3) [OF assms] aggregate_from_empty(2) [OF assms] d
    by (auto simp: map_of_eq_Some_iff image_iff) force+
  then show ?thesis
    by (simp add: validator_counts_card [OF d] operators_with_def)
qed

lemma aggregate_total:
  assumes "senders_well_formed cs txs"
    and "\<forall>t \<in> set (relevant_records v txs). \<exists>n. py_int (get_isError t) = Inr n"
  shows "\<exists>st. aggregate cs v txs st0 = Inr st"
  using assms
proof (induction txs arbitrary: st0)
  case Nil
  then show ?case by simp
next
  case (Cons t txs)
  from Cons.prems(1) have w: "senders_well_formed cs txs"
    and s: "is_aggregate_call t \<longrightarrow> (\<exists>a. cs (tx_from t) = Inr a)"
    by (simp_all add: senders_well_formed_Cons)
  show ?case
  proof (cases "is_aggregate_call t \<and> is_nodeset_transaction t v")
    case False
    then have "process_tx cs v t st0 = Inr st0" using s by (rule process_tx_skip)
    moreover from Cons.prems(2) False
    have "\<forall>t \<in> set (relevant_records v txs). \<exists>n. py_int (get_isError t) = Inr n"
      by (auto simp: relevant_records_def)
    ultimately show ?thesis using Cons.IH [OF w, of st0] by simp
  next
    case True
    with Cons.prems(2) obtain n where n: "py_int (get_isError t) = Inr n"
      by (auto simp: relevant_records_def)
    from True s obtain x where x: "cs (tx_from t) = Inr x" by blast
    from process_tx_relevant [where cs = cs and st = st0 and v = v, OF _ _ x n] True
    obtain st1 where p: "process_tx cs v t st0 = Inr st1" by blast
    from Cons.prems(2) True
    have "\<forall>t \<in> set (relevant_records v txs). \<exists>n. py_int (get_isError t) = Inr n"
      by (auto simp: relevant_records_def)
    then show ?thesis using Cons.IH [OF w, of st1] p by simp
  qed
qed

lemma report_summary:
  assumes a: "aggregate cs v txs [] = Inr st" and ne: "st \<noteq> []"
  shows "report st =
    (let lines = map (\<lambda>c. Operators_line c (operators_with cs v txs c))
                   (sorted_list_of_set (successful_calls cs v txs ` operators cs v txs));
         total = validator_total cs v txs;
         largest = validator_max cs v txs
     in if total = 0
        then (lines @ [Total_line total, Max_line largest], Some ZeroDivisionError)
        else (lines @ [Total_line total, Max_line largest,
                       Ratio_line (real_of_int largest / real_of_int total)], None))"
proof -
  have s: "sorted_counts st = sorted_list_of_set (successful_calls cs v txs ` operators cs v txs)"
    by (simp only: sorted_counts_conv counts_set [OF a])
  have t: "total_validators st = validator_total cs v txs"
    by (simp only: total_validators_sum counts_set [OF a] validator_total_def
        validator_counts_operators_with [OF a])
  have m: "last (sorted_counts st) = validator_max cs v txs"
    by (simp only: last_sorted_counts [OF ne] counts_set [OF a] validator_max_def)
  show ?thesis
    unfolding report_def Let_def s [symmetric] t [symmetric] m [symmetric]
    using ne by (simp add: validator_counts_operators_with [OF a])
qed

lemma relevant_sample_calls:
  "relevant_records NODESET_VAULT_ADDRESS (map (\<lambda>(s, f). sample_call s f) xs)
     = map (\<lambda>(s, f). sample_call s f) xs"
  by (induction xs) (auto simp: relevant_records_def sample_call_aggregate sample_call_relevant)

subsection \<open>The histogram, the total, the maximum and the ratio\<close>

text \<open>
  Claim C1. Take any fetched list in which the sender of every aggregate call is a string
  that \<^verbatim>\<open>to_checksum_address\<close> accepts, in which the error flag of every relevant
  aggregate record reads as an integer, and in which the total is positive (the ratio is
  defined only then). The summary prints, without raising: one line per count that some
  operator has, in increasing order, with the number of operators that have this count,
  where the count of an operator is the number of its successful relevant aggregate
  records; the total, which is the sum over these lines of the count times the number of
  operators; the maximum, which is the largest count of an operator; and the ratio of the
  maximum to the total.
\<close>

theorem summary_of_relevant_records:
  assumes "senders_well_formed cs transactions"
    and "\<forall>t \<in> set (relevant_records vault_address transactions).
             \<exists>n. py_int (get_isError t) = Inr n"
    and "0 < validator_total cs vault_address transactions"
  shows "summarize cs vault_address transactions =
    (map (\<lambda>c. Operators_line c (operators_with cs vault_address transactions c))
       (sorted_list_of_set (successful_calls cs vault_address transactions
                              ` operators cs vault_address transactions))
     @ [Total_line (validator_total cs vault_address transactions),
        Max_line (validator_max cs vault_address transactions),
        Ratio_line (real_of_int (validator_max cs vault_address transactions)
                    / real_of_int (validator_total cs vault_address transactions))],
     None)"
proof -
  from aggregate_total [OF assms(1,2), of "[]"]
  obtain st where a: "aggregate cs vault_address transactions [] = Inr st" by blast
  have ne: "st \<noteq> []"
  proof
    assume "st = []"
    with aggregate_from_empty(2) [OF a] have "operators cs vault_address transactions = {}"
      by simp
    then have "validator_total cs vault_address transactions = 0"
      by (simp add: validator_total_def)
    with assms(3) show False by simp
  qed
  from assms(3) have nz: "validator_total cs vault_address transactions \<noteq> 0" by simp
  show ?thesis
    by (simp add: summarize_def a report_summary [OF a ne] Let_def nz)
qed

text \<open>
  The example of the specification: three successful relevant records of one sender and
  one of another give the histogram 1: 1, 3: 1, the total 4, the maximum 3 and the ratio
  0.75.
\<close>

theorem summary_of_relevant_records_witness:
  "senders_well_formed sample_checksum
        [sample_call sender_a ''0'', sample_call sender_b ''0'',
         sample_call sender_a ''0'', sample_call sender_a ''0'']
   \<and> map (\<lambda>t. py_int (get_isError t)) (relevant_records NODESET_VAULT_ADDRESS
        [sample_call sender_a ''0'', sample_call sender_b ''0'',
         sample_call sender_a ''0'', sample_call sender_a ''0''])
       = [Inr 0, Inr 0, Inr 0, Inr 0]
   \<and> map (\<lambda>t. sample_checksum (tx_from t)) (relevant_records NODESET_VAULT_ADDRESS
        [sample_call sender_a ''0'', sample_call sender_b ''0'',
         sample_call sender_a ''0'', sample_call sender_a ''0''])
       = [Inr operator_a, Inr operator_b, Inr operator_a, Inr operator_a]
   \<and> summarize sample_checksum NODESET_VAULT_ADDRESS
        [sample_call sender_a ''0'', sample_call sender_b ''0'',
         sample_call sender_a ''0'', sample_call sender_a ''0'']
       = ([Operators_line 1 1, Operators_line 3 1, Total_line 4, Max_line 3,
           Ratio_line 0.75], None)"
proof -
  let ?txs = "[sample_call sender_a ''0'', sample_call sender_b ''0'',
         sample_call sender_a ''0'', sample_call sender_a ''0'']"
  note cs = sample_checksum_a sample_checksum_b
  have r: "relevant_records NODESET_VAULT_ADDRESS ?txs = ?txs"
    using relevant_sample_calls [of "[(sender_a, ''0''), (sender_b, ''0''),
      (sender_a, ''0''), (sender_a, ''0'')]"] by simp
  have h0: "senders_well_formed sample_checksum ?txs"
    by (simp add: senders_well_formed_def cs)
  have fl: "map (\<lambda>t. py_int (get_isError t)) (relevant_records NODESET_VAULT_ADDRESS ?txs)
       = [Inr 0, Inr 0, Inr 0, Inr 0]"
    unfolding r by (simp add: py_int_0)
  have sn: "map (\<lambda>t. sample_checksum (tx_from t)) (relevant_records NODESET_VAULT_ADDRESS ?txs)
       = [Inr operator_a, Inr operator_b, Inr operator_a, Inr operator_a]"
    unfolding r by (simp add: cs)
  have h1: "\<forall>t \<in> set (relevant_records NODESET_VAULT_ADDRESS ?txs).
      \<exists>n. py_int (get_isError t) = Inr n"
    unfolding r by (simp add: py_int_0)
  have ops: "operators sample_checksum NODESET_VAULT_ADDRESS ?txs = {operator_a, operator_b}"
    unfolding operators_def r by (auto simp: cs)
  have sa: "successful_calls sample_checksum NODESET_VAULT_ADDRESS ?txs operator_a = 3"
    unfolding successful_calls_def r by (simp add: py_int_0 cs operators_differ)
  have sb: "successful_calls sample_checksum NODESET_VAULT_ADDRESS ?txs operator_b = 1"
    unfolding successful_calls_def r by (simp add: py_int_0 cs operators_differ)
  have im: "successful_calls sample_checksum NODESET_VAULT_ADDRESS ?txs
              ` operators sample_checksum NODESET_VAULT_ADDRESS ?txs = {1, 3}"
    unfolding ops by (auto simp: sa sb)
  have o1: "operators_with sample_checksum NODESET_VAULT_ADDRESS ?txs 1 = 1"
  proof -
    have "{k \<in> {operator_a, operator_b}.
            successful_calls sample_checksum NODESET_VAULT_ADDRESS ?txs k = 1} = {operator_b}"
      using sa sb by auto
    then show ?thesis unfolding operators_with_def ops by simp
  qed
  have o3: "operators_with sample_checksum NODESET_VAULT_ADDRESS ?txs 3 = 1"
  proof -
    have "{k \<in> {operator_a, operator_b}.
            successful_calls sample_checksum NODESET_VAULT_ADDRESS ?txs k = 3} = {operator_a}"
      using sa sb by auto
    then show ?thesis unfolding operators_with_def ops by simp
  qed
  have t: "validator_total sample_checksum NODESET_VAULT_ADDRESS ?txs = 4"
    unfolding validator_total_def im by (simp add: o1 o3)
  have m: "validator_max sample_checksum NODESET_VAULT_ADDRESS ?txs = 3"
    unfolding validator_max_def im by simp
  have c: "sorted_list_of_set (successful_calls sample_checksum NODESET_VAULT_ADDRESS ?txs
              ` operators sample_checksum NODESET_VAULT_ADDRESS ?txs) = [1, 3]"
    unfolding im by simp
  have h2: "0 < validator_total sample_checksum NODESET_VAULT_ADDRESS ?txs"
    by (simp only: t)
  from summary_of_relevant_records [OF h0 h1 h2]
  have "summarize sample_checksum NODESET_VAULT_ADDRESS ?txs
       = ([Operators_line 1 1, Operators_line 3 1, Total_line 4, Max_line 3,
           Ratio_line 0.75], None)"
    unfolding t m c by (simp add: o1 o3)
  with h0 fl sn show ?thesis by blast
qed

subsection \<open>Only failed calls\<close>

text \<open>
  Claim C10. Let the fetched list hold at least one record that is an aggregate call and
  relevant to the vault, let the error flag of every such record read as a non-zero
  integer, and let the sender of every aggregate call be a string that
  \<^verbatim>\<open>to_checksum_address\<close> accepts. Then the pass ends with a non-empty dictionary in which
  every count is 0, the total is 0, and the summary prints the histogram line for the
  count 0, the total 0 and the maximum 0 and then raises \<^verbatim>\<open>ZeroDivisionError\<close> at the
  ratio: the guard before the report tests only that the dictionary is not empty.
\<close>

theorem all_failed_division_by_zero:
  assumes "relevant_records vault_address transactions \<noteq> []"
    and "\<forall>t \<in> set (relevant_records vault_address transactions).
           \<exists>n. py_int (get_isError t) = Inr n \<and> n \<noteq> 0"
    and "senders_well_formed cs transactions"
  shows "\<exists>address_stats.
           aggregate cs vault_address transactions [] = Inr address_stats
         \<and> address_stats \<noteq> []
         \<and> (\<forall>k s. (k, s) \<in> set address_stats \<longrightarrow> successful s = 0)
         \<and> total_validators address_stats = 0
         \<and> summarize cs vault_address transactions
             = ([Operators_line 0 (length address_stats), Total_line 0, Max_line 0],
                Some ZeroDivisionError)"
proof -
  let ?ops = "operators cs vault_address transactions"
  let ?calls = "successful_calls cs vault_address transactions"
  from assms(2) have fl: "\<forall>t \<in> set (relevant_records vault_address transactions).
      \<exists>n. py_int (get_isError t) = Inr n"
    by blast
  from aggregate_total [OF assms(3) fl, of "[]"]
  obtain st where a: "aggregate cs vault_address transactions [] = Inr st" by blast
  note d = aggregate_from_empty(1) [OF a]
  note k = aggregate_from_empty(2) [OF a]
  from assms(1) obtain t where t: "t \<in> set (relevant_records vault_address transactions)"
    by (cases "relevant_records vault_address transactions") auto
  then have "t \<in> set transactions" and "is_aggregate_call t"
    by (simp_all add: relevant_records_def)
  with assms(3) obtain x where "cs (tx_from t) = Inr x"
    by (auto simp: senders_well_formed_def)
  with t have ops_ne: "?ops \<noteq> {}"
    by (auto simp: operators_def)
  then have ne: "st \<noteq> []" using k by auto
  have "filter (\<lambda>t. cs (tx_from t) = Inr x \<and> py_int (get_isError t) = Inr 0)
          (relevant_records vault_address transactions) = []" for x
    using assms(2) by (auto simp: filter_empty_conv)
  then have z: "?calls x = 0" for x
    by (simp add: successful_calls_def)
  have zero: "successful s = 0" if "(x, s) \<in> set st" for x s
    using aggregate_from_empty(3) [OF a that] z by simp
  have im: "?calls ` ?ops = {0}"
    using ops_ne z by auto
  have "card ?ops = length st"
    using d k distinct_card [of "map fst st"] by simp
  then have w: "operators_with cs vault_address transactions 0 = length st"
    by (simp add: operators_with_def z)
  have tt: "validator_total cs vault_address transactions = 0"
    by (simp add: validator_total_def im)
  have m: "validator_max cs vault_address transactions = 0"
    by (simp add: validator_max_def im)
  have tv: "total_validators st = 0"
    using tt by (simp only: total_validators_sum counts_set [OF a] validator_total_def
        validator_counts_operators_with [OF a])
  have "summarize cs vault_address transactions
      = ([Operators_line 0 (length st), Total_line 0, Max_line 0], Some ZeroDivisionError)"
    by (simp add: summarize_def a report_summary [OF a ne] Let_def tt m im w)
  with a ne zero tv show ?thesis by blast
qed

text \<open>Two senders with one failed relevant call each.\<close>

theorem all_failed_division_by_zero_witness:
  "relevant_records NODESET_VAULT_ADDRESS
      [sample_call sender_a ''1'', sample_call sender_b ''1''] \<noteq> []
   \<and> map (\<lambda>t. py_int (get_isError t)) (relevant_records NODESET_VAULT_ADDRESS
        [sample_call sender_a ''1'', sample_call sender_b ''1'']) = [Inr 1, Inr 1]
   \<and> senders_well_formed sample_checksum
        [sample_call sender_a ''1'', sample_call sender_b ''1'']
   \<and> summarize sample_checksum NODESET_VAULT_ADDRESS
        [sample_call sender_a ''1'', sample_call sender_b ''1'']
       = ([Operators_line 0 2, Total_line 0, Max_line 0], Some ZeroDivisionError)"
proof -
  let ?txs = "[sample_call sender_a ''1'', sample_call sender_b ''1'']"
  note cs = sample_checksum_a sample_checksum_b
  have r: "relevant_records NODESET_VAULT_ADDRESS ?txs = ?txs"
    by (simp add: relevant_records_def sample_call_aggregate sample_call_relevant)
  have h1: "relevant_records NODESET_VAULT_ADDRESS ?txs \<noteq> []"
    unfolding r by simp
  have fl: "map (\<lambda>t. py_int (get_isError t)) (relevant_records NODESET_VAULT_ADDRESS ?txs)
      = [Inr 1, Inr 1]"
    unfolding r by (simp add: py_int_1)
  have h2: "\<forall>t \<in> set (relevant_records NODESET_VAULT_ADDRESS ?txs).
      \<exists>n. py_int (get_isError t) = Inr n \<and> n \<noteq> 0"
    unfolding r by (simp add: py_int_1)
  have h3: "senders_well_formed sample_checksum ?txs"
    by (simp add: senders_well_formed_def cs)
  from all_failed_division_by_zero [OF h1 h2 h3]
  obtain st where a: "aggregate sample_checksum NODESET_VAULT_ADDRESS ?txs [] = Inr st"
    and s: "summarize sample_checksum NODESET_VAULT_ADDRESS ?txs
             = ([Operators_line 0 (length st), Total_line 0, Max_line 0],
                Some ZeroDivisionError)"
    by blast
  have "operators sample_checksum NODESET_VAULT_ADDRESS ?txs = {operator_a, operator_b}"
    unfolding operators_def r by (auto simp: cs)
  then have "card (operators sample_checksum NODESET_VAULT_ADDRESS ?txs) = 2"
    by (simp add: operators_differ)
  moreover have "card (operators sample_checksum NODESET_VAULT_ADDRESS ?txs) = length st"
    using aggregate_from_empty(1,2) [OF a] distinct_card [of "map fst st"] by simp
  ultimately have "length st = 2" by simp
  with s h1 fl h3 show ?thesis by simp
qed

subsection \<open>Invariants of the statistics\<close>

lemma histogram_values_sum:
  "sum_list (map (validator_counts st) (sorted_counts st)) = length st"
proof -
  let ?vals = "map (successful \<circ> snd) st"
  have "sum_list (map (validator_counts st) (sorted_counts st))
      = sum (validator_counts st) (set (sorted_counts st))"
    by (rule sum_list_distinct_conv_sum_set) simp
  also have "\<dots> = sum (count_list ?vals) (set ?vals)"
    by (simp add: validator_counts_def [abs_def])
  also have "\<dots> = length ?vals"
    by (rule sum_count_set) simp_all
  finally show ?thesis by simp
qed

text \<open>
  Claim C9. Let \<open>processed\<close> be the records the loop has gone through, at any moment of
  the pass or at its end, and \<open>address_stats\<close> the dictionary then. Every key is the
  checksummed sender of a processed record and every count is at least 0. No key occurs
  twice. The keys of the histogram are distinct and the count of every operator is one
  of them, so every operator lies in exactly one bucket; the value of the histogram at a
  count is the number of operators with that count; and the values of the histogram add
  up to the number of distinct operators.
\<close>

theorem statistics_invariants:
  assumes "aggregate cs vault_address processed [] = Inr address_stats"
  shows "(\<forall>k s. (k, s) \<in> set address_stats \<longrightarrow>
            (\<exists>t \<in> set processed. cs (tx_from t) = Inr k) \<and> 0 \<le> successful s)
       \<and> distinct (map fst address_stats)
       \<and> distinct (sorted_counts address_stats)
       \<and> (\<forall>k s. (k, s) \<in> set address_stats \<longrightarrow> successful s \<in> set (sorted_counts address_stats))
       \<and> (\<forall>c. validator_counts address_stats c
                 = card {k. \<exists>s. (k, s) \<in> set address_stats \<and> successful s = c})
       \<and> sum_list (map (validator_counts address_stats) (sorted_counts address_stats))
           = card (fst ` set address_stats)"
proof -
  note d = aggregate_from_empty(1) [OF assms]
  note k = aggregate_from_empty(2) [OF assms]
  have key: "\<exists>t \<in> set processed. cs (tx_from t) = Inr x" if "(x, s) \<in> set address_stats" for x s
  proof -
    from that have "x \<in> fst ` set address_stats" by force
    then have "x \<in> operators cs vault_address processed" by (simp only: k)
    then show ?thesis by (auto simp: operators_def relevant_records_def)
  qed
  have nonneg: "0 \<le> successful s" if "(x, s) \<in> set address_stats" for x s
    using aggregate_from_empty(3) [OF assms that] by (simp add: successful_calls_def)
  have mem: "successful s \<in> set (sorted_counts address_stats)"
    if "(x, s) \<in> set address_stats" for x s
    using that by (force simp: image_iff)
  have bucket: "validator_counts address_stats c
      = card {k. \<exists>s. (k, s) \<in> set address_stats \<and> successful s = c}" for c
  proof -
    have "{k \<in> fst ` set address_stats. \<exists>s. map_of address_stats k = Some s \<and> successful s = c}
        = {k. \<exists>s. (k, s) \<in> set address_stats \<and> successful s = c}"
      using d by (auto simp: map_of_eq_Some_iff image_iff) force
    then show ?thesis by (simp add: validator_counts_card [OF d])
  qed
  have "card (fst ` set address_stats) = length address_stats"
    using d distinct_card [of "map fst address_stats"] by simp
  then have total: "sum_list (map (validator_counts address_stats) (sorted_counts address_stats))
      = card (fst ` set address_stats)"
    by (simp add: histogram_values_sum)
  from key nonneg d mem bucket total show ?thesis
    by (intro conjI allI impI) (blast, blast, assumption, simp, blast, blast, assumption)
qed

text \<open>Two successful calls of one sender around a failed call of another.\<close>

theorem statistics_invariants_witness:
  "aggregate sample_checksum NODESET_VAULT_ADDRESS
      [sample_call sender_a ''0'', sample_call sender_b ''1'', sample_call sender_a ''0''] []
     = Inr [(operator_a, \<lparr>successful = 2\<rparr>), (operator_b, \<lparr>successful = 0\<rparr>)]
   \<and> sum_list (map (validator_counts [(operator_a, \<lparr>successful = 2\<rparr>), (operator_b, \<lparr>successful = 0\<rparr>)])
        (sorted_counts [(operator_a, \<lparr>successful = 2\<rparr>), (operator_b, \<lparr>successful = 0\<rparr>)])) = 2"
proof -
  let ?txs = "[sample_call sender_a ''0'', sample_call sender_b ''1'', sample_call sender_a ''0'']"
  let ?st = "[(operator_a, \<lparr>successful = 2\<rparr>), (operator_b, \<lparr>successful = 0\<rparr>)]"
  have a: "aggregate sample_checksum NODESET_VAULT_ADDRESS ?txs [] = Inr ?st"
    by (simp add: process_tx_def Let_def sample_call_aggregate sample_call_relevant
        py_int_0 py_int_1 sample_checksum_a sample_checksum_b operators_differ)
  have c: "card (fst ` set ?st) = 2" by (simp add: operators_differ)
  from statistics_invariants [OF a]
  have "sum_list (map (validator_counts ?st) (sorted_counts ?st)) = card (fst ` set ?st)"
    by (elim conjE)
  then have "sum_list (map (validator_counts ?st) (sorted_counts ?st)) = 2"
    by (simp only: c)
  with a show ?thesis by blast
qed

section \<open>Properties of the relevance filter\<close>

lemma starts_with_iff: "starts_with s p \<longleftrightarrow> (\<exists>rest. s = p @ rest)"
  by (induction s p rule: starts_with.induct) auto

lemma py_in_iff: "py_in needle hay \<longleftrightarrow> (\<exists>before after. hay = before @ needle @ after)"
proof (induction hay)
  case Nil
  then show ?case by simp
next
  case (Cons h hs)
  show ?case
  proof
    assume "py_in needle (h # hs)"
    then consider "starts_with (h # hs) needle" | "py_in needle hs" by auto
    then show "\<exists>before after. h # hs = before @ needle @ after"
    proof cases
      case 1
      then obtain rest where "h # hs = needle @ rest" by (auto simp: starts_with_iff)
      then have "h # hs = [] @ needle @ rest" by simp
      then show ?thesis by blast
    next
      case 2
      with Cons.IH obtain before after where "hs = before @ needle @ after" by blast
      then have "h # hs = (h # before) @ needle @ after" by simp
      then show ?thesis by blast
    qed
  next
    assume "\<exists>before after. h # hs = before @ needle @ after"
    then obtain before after where e: "h # hs = before @ needle @ after" by blast
    show "py_in needle (h # hs)"
    proof (cases before)
      case Nil
      with e have "starts_with (h # hs) needle" by (auto simp: starts_with_iff)
      then show ?thesis by simp
    next
      case (Cons b bs)
      with e have "hs = bs @ needle @ after" by simp
      with Cons.IH have "py_in needle hs" by blast
      then show ?thesis by simp
    qed
  qed
qed

lemma lower_append [simp]: "lower (xs @ ys) = lower xs @ lower ys"
  by (simp add: lower_def)

lemma lower_eq_append:
  "lower s = xs @ ys \<longleftrightarrow> (\<exists>a b. s = a @ b \<and> lower a = xs \<and> lower b = ys)"
  unfolding lower_def by (auto simp: map_eq_append_conv)

lemma lower_0x: "lower ''0x'' = ''0x''"
  by code_simp

text \<open>
  Claim C5. For a record and a vault address \<^verbatim>\<open>0x\<close> followed by its hex digits,
  \<^verbatim>\<open>is_nodeset_transaction\<close> is true exactly when some stretch of the payload, anywhere
  in it, equals the digits up to the case of the letters. Nothing else is looked at, so a
  payload that holds the digits for whatever reason is relevant.
\<close>

theorem relevance_is_substring_match:
  "(is_nodeset_transaction t (''0x'' @ digits)
      \<longleftrightarrow> contains_ignoring_case (get_input t) digits)
   \<and> is_nodeset_transaction (t\<lparr>tx_input := Some (before @ digits @ after)\<rparr>) (''0x'' @ digits)"
proof -
  have "lower (''0x'' @ digits) = ''0x'' @ lower digits"
    by (simp only: lower_append lower_0x)
  then have d: "drop 2 (lower (''0x'' @ digits)) = lower digits"
    by simp
  have iff: "is_nodeset_transaction u (''0x'' @ digits)
      \<longleftrightarrow> contains_ignoring_case (get_input u) digits" for u
  proof -
    have "is_nodeset_transaction u (''0x'' @ digits)
        \<longleftrightarrow> (\<exists>b a. lower (get_input u) = b @ lower digits @ a)"
      unfolding is_nodeset_transaction_def Let_def d by (simp add: py_in_iff)
    also have "\<dots> \<longleftrightarrow> contains_ignoring_case (get_input u) digits"
      unfolding contains_ignoring_case_def lower_eq_append by blast
    finally show ?thesis .
  qed
  have g: "get_input (t\<lparr>tx_input := Some x\<rparr>) = x" for x
    by (simp add: get_input_def)
  have "contains_ignoring_case (before @ digits @ after) digits"
    unfolding contains_ignoring_case_def by blast
  then have "is_nodeset_transaction (t\<lparr>tx_input := Some (before @ digits @ after)\<rparr>)
      (''0x'' @ digits)"
    by (simp only: iff g)
  with iff [of t] show ?thesis by blast
qed

text \<open>
  A token transfer, not a call through the vault, whose argument happens to spell the
  vault's digits in upper case.
\<close>

theorem relevance_is_substring_match_witness:
  "is_nodeset_transaction
     \<lparr>tx_from = sender_a,
      tx_input = Some ''0xa9059cbb00B266274F55E784689E97B7E363B0666D92E6305B00'',
      tx_hash = ''0x01'', tx_isError = Some ''0''\<rparr>
     ''0xB266274F55e784689e97b7E363B0666d92e6305B''"
proof -
  have "contains_ignoring_case
      (''0xa9059cbb00'' @ ''B266274F55E784689E97B7E363B0666D92E6305B'' @ ''00'')
      ''B266274F55e784689e97b7E363B0666d92e6305B''"
    unfolding contains_ignoring_case_def
  proof (intro exI conjI)
    show "''0xa9059cbb00'' @ ''B266274F55E784689E97B7E363B0666D92E6305B'' @ ''00''
        = ''0xa9059cbb00'' @ ''B266274F55E784689E97B7E363B0666D92E6305B'' @ ''00''" by (rule refl)
    show "lower ''B266274F55E784689E97B7E363B0666D92E6305B''
        = lower ''B266274F55e784689e97b7E363B0666d92e6305B''" by code_simp
  qed
  with relevance_is_substring_match [of
      "\<lparr>tx_from = sender_a,
        tx_input = Some ''0xa9059cbb00B266274F55E784689E97B7E363B0666D92E6305B00'',
        tx_hash = ''0x01'', tx_isError = Some ''0''\<rparr>"
      "''B266274F55e784689e97b7E363B0666d92e6305B''"]
  show ?thesis by (simp add: get_input_def)
qed

section \<open>Properties of the transaction fetcher\<close>

subsection \<open>Pagination\<close>

lemma attempt_page_short:
  assumes "page_records r = Some ts" "length ts < PAGE_OFFSET"
  shows "attempt_page r page attempt acc = ([Log_info (length ts) page], Return (acc @ ts))"
  using assms
  by (auto simp: page_records_def attempt_page_def get_result_def
      split: response.splits body.splits result_field.splits if_splits)

lemma attempt_page_full:
  assumes "page_records r = Some ts" "PAGE_OFFSET \<le> length ts"
  shows "attempt_page r page attempt acc = ([Log_info (length ts) page], Break (acc @ ts))"
  using assms
  by (auto simp: page_records_def attempt_page_def get_result_def
      split: response.splits body.splits result_field.splits if_splits)

lemma page_requests_simps [simp]:
  "page_requests [] = []"
  "page_requests (Get p # es) = p # page_requests es"
  "page_requests (Sleep d # es) = page_requests es"
  "page_requests (Log_info n q # es) = page_requests es"
  "page_requests (Log_warning q # es) = page_requests es"
  "page_requests (Log_error q # es) = page_requests es"
  "page_requests (es @ fs) = page_requests es @ page_requests fs"
  by (simp_all add: page_requests_def)

lemma fetch_full_pages:
  assumes "list_all2 (\<lambda>r ts. page_records r = Some ts \<and> PAGE_OFFSET \<le> length ts) full pages"
  shows "\<exists>evs. fetch_loop (full @ rest) page attempt acc ev
           = fetch_loop rest (page + length full) (if full = [] then attempt else 0)
               (acc @ concat pages) (ev @ evs)
         \<and> page_requests evs = [page ..< page + length full]"
  using assms
proof (induction full pages arbitrary: page attempt acc ev rule: list_all2_induct)
  case Nil
  have "fetch_loop ([] @ rest) page attempt acc ev
      = fetch_loop rest (page + length ([] :: 'a response list))
          (if ([] :: 'a response list) = [] then attempt else 0) (acc @ concat []) (ev @ [])
      \<and> page_requests [] = [page ..< page + length ([] :: 'a response list)]"
    by simp
  then show ?case by blast
next
  case (Cons r rs ts tss)
  from Cons.hyps(1) have a: "attempt_page r page attempt acc
      = ([Log_info (length ts) page], Break (acc @ ts))"
    by (simp add: attempt_page_full)
  from Cons.IH [of "page + 1" 0 "acc @ ts" "ev @ [Get page, Log_info (length ts) page]"]
  obtain evs where e: "fetch_loop (rs @ rest) (page + 1) 0 (acc @ ts)
        (ev @ [Get page, Log_info (length ts) page])
      = fetch_loop rest (page + 1 + length rs) (if rs = [] then 0 else 0)
          ((acc @ ts) @ concat tss) ((ev @ [Get page, Log_info (length ts) page]) @ evs)"
    and p: "page_requests evs = [page + 1 ..< page + 1 + length rs]"
    by blast
  let ?evs = "[Get page, Log_info (length ts) page] @ evs"
  have "fetch_loop ((r # rs) @ rest) page attempt acc ev
      = fetch_loop rest (page + length (r # rs)) (if r # rs = [] then attempt else 0)
          (acc @ concat (ts # tss)) (ev @ ?evs)"
    using e by (simp add: a)
  moreover have "page_requests ?evs = [page ..< page + length (r # rs)]"
  proof -
    have j: "page + length (r # rs) = page + 1 + length rs" by simp
    have "page < page + 1 + length rs" by simp
    then have "[page ..< page + 1 + length rs] = page # [Suc page ..< page + 1 + length rs]"
      by (rule upt_conv_Cons)
    moreover have "Suc page = page + 1" by simp
    moreover have "page_requests ?evs = page # page_requests evs" by simp
    ultimately show ?thesis by (simp only: p j)
  qed
  ultimately show ?case by blast
qed

lemma fetch_short_page:
  assumes "page_records r = Some ts" "length ts < PAGE_OFFSET"
  shows "fetch_loop (r # rest) page attempt acc ev
           = Some (ev @ [Get page, Log_info (length ts) page], Inr (acc @ ts))"
  by (simp add: attempt_page_short [OF assms])

text \<open>
  Claim C8. An answer that is taken as a page and holds fewer than 1000 records ends the
  fetch: whatever the page number, the attempt, the records accumulated before and the
  answers still to come (\<open>rest\<close>), the fetcher returns the accumulated records followed
  by those of this page, and the only request it makes is the one this answer replies to.
  When the answers before it are full pages, the fetcher returns the records of all the
  pages in order, and the pages requested are 1, 2, and so on up to the short page, one
  per page taken.
\<close>

theorem short_page_ends_pagination:
  assumes "list_all2 (\<lambda>r ts. page_records r = Some ts \<and> PAGE_OFFSET \<le> length ts) full pages"
    and "page_records r = Some ts" and "length ts < 1000"
  shows "(\<forall>page attempt all_transactions events.
            fetch_loop (r # rest) page attempt all_transactions events
              = Some (events @ [Get page, Log_info (length ts) page],
                      Inr (all_transactions @ ts)))
       \<and> (\<exists>events. fetch_multicall_transactions (full @ r # rest)
                       = Some (events, Inr (concat pages @ ts))
                   \<and> page_requests events = [1 ..< length full + 2])"
proof -
  from assms(3) have short: "length ts < PAGE_OFFSET" by (simp add: PAGE_OFFSET_def)
  note one = fetch_short_page [OF assms(2) short]
  from fetch_full_pages [OF assms(1), of "r # rest" 1 0 "[]" "[]"]
  obtain evs where e: "fetch_loop (full @ r # rest) 1 0 [] []
      = fetch_loop (r # rest) (1 + length full) (if full = [] then 0 else 0)
          ([] @ concat pages) ([] @ evs)"
    and p: "page_requests evs = [1 ..< 1 + length full]"
    by blast
  let ?events = "evs @ [Get (1 + length full), Log_info (length ts) (1 + length full)]"
  have "fetch_loop (full @ r # rest) 1 0 [] []
      = fetch_loop (r # rest) (1 + length full) 0 (concat pages) evs"
    using e by (simp del: fetch_loop.simps)
  also have "\<dots> = Some (?events, Inr (concat pages @ ts))"
    by (rule one)
  finally have "fetch_multicall_transactions (full @ r # rest)
      = Some (?events, Inr (concat pages @ ts))"
    by (simp only: fetch_multicall_transactions_def)
  moreover have "page_requests ?events = [1 ..< length full + 2]"
    using p by simp
  ultimately show ?thesis using one by blast
qed


text \<open>A full page of 1000 records, a page of three, and an answer that is never asked for.\<close>

theorem short_page_ends_pagination_witness:
  "\<exists>events. fetch_multicall_transactions
       [Http 200 (Object (Some ''1'') (Some ''OK'') (Items (replicate 1000 (7 :: nat)))),
        Http 200 (Object (Some ''1'') (Some ''OK'') (Items [1, 2, 3])),
        Http 200 (Object (Some ''1'') (Some ''OK'') (Items [4]))]
     = Some (events, Inr (replicate 1000 7 @ [1, 2, 3]))
     \<and> page_requests events = [1, 2]"
proof -
  let ?full = "Http 200 (Object (Some ''1'') (Some ''OK'') (Items (replicate 1000 (7 :: nat))))"
  let ?short = "Http 200 (Object (Some ''1'') (Some ''OK'') (Items [1, 2, 3 :: nat]))"
  let ?rest = "[Http 200 (Object (Some ''1'') (Some ''OK'') (Items [4 :: nat]))]"
  have f: "list_all2 (\<lambda>r ts. page_records r = Some ts \<and> PAGE_OFFSET \<le> length ts)
      [?full] [replicate 1000 7]"
    by (simp add: page_records_def raise_for_status_def PAGE_OFFSET_def)
  have s: "page_records ?short = Some [1, 2, 3]"
    by (simp add: page_records_def raise_for_status_def)
  have l: "length [1, 2, 3 :: nat] < 1000" by simp
  from short_page_ends_pagination [OF f s l, of ?rest]
  obtain events where "fetch_multicall_transactions ([?full] @ ?short # ?rest)
      = Some (events, Inr (concat [replicate 1000 7] @ [1, 2, 3]))"
    and "page_requests events = [1 ..< length [?full] + 2]"
    by blast
  moreover have "[1 ..< length [?full] + 2] = [1, 2]"
    by (simp add: upt_conv_Cons)
  ultimately show ?thesis by (intro exI [of _ events]) simp
qed

subsection \<open>Rate limiting\<close>

lemma attempt_page_429:
  "attempt_page (Http 429 b) page attempt acc =
     (if attempt < 2 then ([Sleep (2 * 2 ^ attempt)], Continue)
      else ([Log_error page], Return acc))"
  by (simp add: attempt_page_def raise_for_status_def MAX_RETRIES_def RETRY_DELAY_def)

lemma attempt_page_events:
  assumes "attempt_page r page attempt acc = (es, c)"
  shows "page_requests es = []"
    and "c = Continue \<Longrightarrow> attempt + 1 < MAX_RETRIES \<and> es = [Sleep (2 * 2 ^ attempt)]"
    and "c \<noteq> Continue \<Longrightarrow> \<forall>d. Sleep d \<notin> set es"
  using assms
  by (auto simp: attempt_page_def get_result_def RETRY_DELAY_def
      split: response.splits body.splits result_field.splits if_splits sum.splits)

lemma request_bound:
  assumes "fetch_loop rs page attempt acc ev = Some (evs, res)" and "attempt < MAX_RETRIES"
  shows "count_list (page_requests evs) p
           \<le> count_list (page_requests ev) p
             + (if p = page then MAX_RETRIES - attempt else if page < p then MAX_RETRIES else 0)"
  using assms
proof (induction rs arbitrary: page attempt acc ev)
  case Nil
  then show ?case by simp
next
  case (Cons r rs)
  obtain es c where a: "attempt_page r page attempt acc = (es, c)"
    by (cases "attempt_page r page attempt acc")
  note g = attempt_page_events(1) [OF a]
  have m: "0 < MAX_RETRIES" by (simp add: MAX_RETRIES_def)
  from Cons.prems(2) have one: "1 \<le> MAX_RETRIES - attempt" by simp
  show ?case
  proof (cases c)
    case (Return txs)
    with Cons.prems a have "evs = ev @ Get page # es" by simp
    then show ?thesis using g one by simp
  next
    case (Raise e)
    with Cons.prems a have "evs = ev @ Get page # es" by simp
    then show ?thesis using g one by simp
  next
    case (Break txs)
    with Cons.prems a
    have "fetch_loop rs (page + 1) 0 txs (ev @ Get page # es) = Some (evs, res)" by simp
    from Cons.IH [OF this m] show ?thesis using g Cons.prems(2) by (auto split: if_splits)
  next
    case Continue
    from attempt_page_events(2) [OF a Continue] have lt: "attempt + 1 < MAX_RETRIES" by simp
    with Cons.prems a Continue
    have "fetch_loop rs page (attempt + 1) acc (ev @ Get page # es) = Some (evs, res)" by simp
    from Cons.IH [OF this lt] show ?thesis using g lt by (auto split: if_splits)
  qed
qed

lemma sleep_bound:
  assumes "fetch_loop rs page attempt acc ev = Some (evs, res)" and "attempt < MAX_RETRIES"
    and "Sleep d \<in> set evs"
  shows "Sleep d \<in> set ev \<or> d = 2 \<or> d = 4"
  using assms
proof (induction rs arbitrary: page attempt acc ev)
  case Nil
  then show ?case by simp
next
  case (Cons r rs)
  obtain es c where a: "attempt_page r page attempt acc = (es, c)"
    by (cases "attempt_page r page attempt acc")
  have m: "0 < MAX_RETRIES" by (simp add: MAX_RETRIES_def)
  show ?case
  proof (cases c)
    case (Return txs)
    with Cons.prems a have "evs = ev @ Get page # es" by simp
    then show ?thesis using attempt_page_events(3) [OF a] Return Cons.prems(3) by auto
  next
    case (Raise e)
    with Cons.prems a have "evs = ev @ Get page # es" by simp
    then show ?thesis using attempt_page_events(3) [OF a] Raise Cons.prems(3) by auto
  next
    case (Break txs)
    with Cons.prems a
    have "fetch_loop rs (page + 1) 0 txs (ev @ Get page # es) = Some (evs, res)" by simp
    from Cons.IH [OF this m Cons.prems(3)] show ?thesis
      using attempt_page_events(3) [OF a] Break by auto
  next
    case Continue
    from attempt_page_events(2) [OF a Continue]
    have lt: "attempt + 1 < MAX_RETRIES" and es: "es = [Sleep (2 * 2 ^ attempt)]" by simp_all
    from lt have "attempt = 0 \<or> attempt = 1" by (auto simp: MAX_RETRIES_def)
    then have d: "(2::nat) * 2 ^ attempt = 2 \<or> (2::nat) * 2 ^ attempt = 4" by auto
    from Cons.prems a Continue lt
    have "fetch_loop rs page (attempt + 1) acc (ev @ Get page # es) = Some (evs, res)" by simp
    from Cons.IH [OF this lt Cons.prems(3)] show ?thesis
      using es d by auto
  qed
qed

text \<open>
  Claim C3. A rate-limit answer (status 429) to the first attempt on a page makes the
  fetcher sleep 2 seconds and ask for the same page again; to the second attempt, sleep 4
  seconds and ask again; to the third attempt, log an error and return the records
  accumulated so far, without sleeping and without raising. Three such answers in a row
  hence give three requests of the page, the sleeps 2 and 4 between them, and the
  accumulated records. In every run that returns, no page is requested more than 3 times
  and every sleep lasts 2 or 4 seconds.
\<close>

theorem rate_limit_retries:
  "fetch_loop (Http 429 b1 # rest) page 0 all_transactions events
     = fetch_loop rest page 1 all_transactions (events @ [Get page, Sleep 2])
   \<and> fetch_loop (Http 429 b2 # rest) page 1 all_transactions events
     = fetch_loop rest page 2 all_transactions (events @ [Get page, Sleep 4])
   \<and> fetch_loop (Http 429 b3 # rest) page 2 all_transactions events
     = Some (events @ [Get page, Log_error page], Inr all_transactions)
   \<and> fetch_loop (Http 429 b1 # Http 429 b2 # Http 429 b3 # rest) page 0 all_transactions events
     = Some (events @ [Get page, Sleep 2, Get page, Sleep 4, Get page, Log_error page],
             Inr all_transactions)
   \<and> (\<forall>evs res. fetch_multicall_transactions responses = Some (evs, res) \<longrightarrow>
         (\<forall>p. count_list (page_requests evs) p \<le> 3)
         \<and> (\<forall>d. Sleep d \<in> set evs \<longrightarrow> d = 2 \<or> d = 4))"
proof -
  have global: "count_list (page_requests evs) p \<le> 3 \<and> (Sleep d \<in> set evs \<longrightarrow> d = 2 \<or> d = 4)"
    if f: "fetch_multicall_transactions responses = Some (evs, res)" for evs res p d
  proof -
    from f have l: "fetch_loop responses 1 0 [] [] = Some (evs, res)"
      by (simp add: fetch_multicall_transactions_def)
    have m: "0 < MAX_RETRIES" by (simp add: MAX_RETRIES_def)
    from request_bound [OF l m, of p] have "count_list (page_requests evs) p \<le> 3"
      by (simp add: MAX_RETRIES_def split: if_splits)
    moreover from sleep_bound [OF l m] have "Sleep d \<in> set evs \<longrightarrow> d = 2 \<or> d = 4"
      by auto
    ultimately show ?thesis by blast
  qed
  have retry: "fetch_loop (Http 429 b # rest) page attempt all_transactions events
      = fetch_loop rest page (attempt + 1) all_transactions
          (events @ [Get page, Sleep (2 * 2 ^ attempt)])"
    if "attempt < 2" for b rest events attempt
    using that by (simp add: attempt_page_429 MAX_RETRIES_def)
  have s0: "fetch_loop (Http 429 b # rest) page 0 all_transactions events
      = fetch_loop rest page 1 all_transactions (events @ [Get page, Sleep 2])" for b rest events
  proof -
    have "(0::nat) < 2" and a: "(0::nat) + 1 = 1" "(2::nat) * 2 ^ (0::nat) = 2" by simp_all
    from retry [OF this(1), of b rest events] show ?thesis by (simp only: a)
  qed
  have s1: "fetch_loop (Http 429 b # rest) page 1 all_transactions events
      = fetch_loop rest page 2 all_transactions (events @ [Get page, Sleep 4])" for b rest events
  proof -
    have "(1::nat) < 2" and a: "(1::nat) + 1 = 2" "(2::nat) * 2 ^ (1::nat) = 4" by simp_all
    from retry [OF this(1), of b rest events] show ?thesis by (simp only: a)
  qed
  have s2: "fetch_loop (Http 429 b # rest) page 2 all_transactions events
      = Some (events @ [Get page, Log_error page], Inr all_transactions)" for b rest events
    by (simp add: attempt_page_429)
  have s3: "fetch_loop (Http 429 b1 # Http 429 b2 # Http 429 b3 # rest) page 0
        all_transactions events
      = Some (events @ [Get page, Sleep 2, Get page, Sleep 4, Get page, Log_error page],
              Inr all_transactions)"
    by (simp only: s0 s1 s2 append_assoc append_Cons append_Nil)
  from s0 s1 s2 s3 global show ?thesis by blast
qed


text \<open>Three rate-limit answers on page 1; the page that would follow is never asked for.\<close>

theorem rate_limit_retries_witness:
  "fetch_multicall_transactions
     [Http 429 Not_json, Http 429 Not_json, Http 429 Not_json,
      Http 200 (Object (Some ''1'') (Some ''OK'') (Items [1 :: nat]))]
   = Some ([Get 1, Sleep 2, Get 1, Sleep 4, Get 1, Log_error 1], Inr [])"
proof -
  from rate_limit_retries [of Not_json
      "[Http 200 (Object (Some ''1'') (Some ''OK'') (Items [1 :: nat]))]" 1 "[]" "[]"
      Not_json Not_json "[]"]
  have "fetch_loop [Http 429 Not_json, Http 429 Not_json, Http 429 Not_json,
      Http 200 (Object (Some ''1'') (Some ''OK'') (Items [1 :: nat]))] 1 0 [] []
    = Some ([] @ [Get 1, Sleep 2, Get 1, Sleep 4, Get 1, Log_error 1], Inr [])"
    by blast
  then show ?thesis
    by (simp only: fetch_multicall_transactions_def append_Nil)
qed

subsection \<open>Failures that end the fetch\<close>








end
